theory Spec2Isabelle
  imports Complex_Main
begin

section \<open>Strings and characters of the host language\<close>

text \<open>
  The two scripts (\<^verbatim>\<open>src/scripts/automation.js\<close>, the Alert Ingestor, and
  \<^verbatim>\<open>src/scripts/write-posts.js\<close>, the Post Writer) transform text with regular
  expressions and write rows to a store. A JavaScript string is a sequence of code units;
  here a string is a \<^typ>\<open>string\<close> whose characters are read as the code units
  U+0000 .. U+00FF (Latin-1), and every built-in below is written out for that range:
  it is the range on which \<^verbatim>\<open>toLowerCase\<close> is closed and on which the
  classes \<^verbatim>\<open>\w\<close>, \<^verbatim>\<open>\s\<close> and \<^verbatim>\<open>.\<close> are decided by the code unit alone.
\<close>

definition code :: "char \<Rightarrow> nat" where
  "code c = of_char c"

text \<open>\<^verbatim>\<open>\s\<close>: TAB, LF, VT, FF, CR, SPACE and NBSP are the white space and line
  terminator code units below U+0100.\<close>

definition is_space :: "char \<Rightarrow> bool" where
  "is_space c = (code c \<in> {9, 10, 11, 12, 13, 32, 160})"

text \<open>\<^verbatim>\<open>\w\<close> is \<^verbatim>\<open>[A-Za-z0-9_]\<close>.\<close>

definition is_word :: "char \<Rightarrow> bool" where
  "is_word c = (let n = code c in
     (65 \<le> n \<and> n \<le> 90) \<or> (97 \<le> n \<and> n \<le> 122) \<or> (48 \<le> n \<and> n \<le> 57) \<or> n = 95)"

text \<open>Line terminators, which \<^verbatim>\<open>.\<close> does not match: LF and CR.\<close>

definition is_line_terminator :: "char \<Rightarrow> bool" where
  "is_line_terminator c = (code c = 10 \<or> code c = 13)"

text \<open>\<^verbatim>\<open>String.prototype.toLowerCase\<close>, one code unit at a time: A-Z and the
  Latin-1 capitals U+00C0 .. U+00DE (U+00D7, the multiplication sign, apart) move up
  by 32.\<close>

definition lower_char :: "char \<Rightarrow> char" where
  "lower_char c = (let n = code c in
     if (65 \<le> n \<and> n \<le> 90) \<or> (192 \<le> n \<and> n \<le> 222 \<and> n \<noteq> 215)
     then char_of (n + 32) else c)"

definition toLowerCase :: "string \<Rightarrow> string" where
  "toLowerCase s = map lower_char s"

text \<open>\<^verbatim>\<open>String.prototype.trim\<close> removes white space and line terminators at
  both ends.\<close>

definition trim :: "string \<Rightarrow> string" where
  "trim s = rev (dropWhile is_space (rev (dropWhile is_space s)))"

text \<open>\<^verbatim>\<open>s.substring(0, n)\<close>.\<close>

definition substring0 :: "nat \<Rightarrow> string \<Rightarrow> string" where
  "substring0 n s = take n s"

section \<open>Regular expressions\<close>

text \<open>
  Every regular expression of the two scripts is a sequence of quantified character
  classes (a literal is a class with one member, quantified \<^verbatim>\<open>{1,1}\<close>), with at most
  one capture group around a single quantified class. An atom is a class, its least
  and greatest number of repetitions (\<open>None\<close>: unbounded), and whether it is greedy.
\<close>

datatype atom = Atom (accepts: "char \<Rightarrow> bool") (lo: nat) (hi: "nat option") (greedy: bool)

type_synonym regex = "atom list"

text \<open>The first candidate that the continuation accepts.\<close>

primrec first_some :: "('a \<Rightarrow> 'b option) \<Rightarrow> 'a list \<Rightarrow> 'b option" where
  "first_some f [] = None"
| "first_some f (x # xs) = (case f x of Some y \<Rightarrow> Some y | None \<Rightarrow> first_some f xs)"

text \<open>The repetition counts an atom can take at the head of \<open>s\<close>, in the order the
  backtracking matcher tries them: longest first when greedy, shortest first when lazy.\<close>

definition reach :: "atom \<Rightarrow> string \<Rightarrow> nat" where
  "reach a s = (let n = length (takeWhile (accepts a) s)
                in case hi a of None \<Rightarrow> n | Some h \<Rightarrow> min h n)"

definition counts :: "atom \<Rightarrow> string \<Rightarrow> nat list" where
  "counts a s = (let ks = [lo a ..< Suc (reach a s)] in if greedy a then rev ks else ks)"

text \<open>Matching a regex at the head of a string: the number of code units each atom
  consumed, or \<open>None\<close>.\<close>

primrec match_here :: "regex \<Rightarrow> string \<Rightarrow> nat list option" where
  "match_here [] s = Some []"
| "match_here (a # as) s =
     first_some (\<lambda>k. map_option ((#) k) (match_here as (drop k s))) (counts a s)"

text \<open>\<^verbatim>\<open>RegExp.prototype.exec\<close> without the sticky flag: the leftmost start
  position at which the regex matches, with the atoms' counts.\<close>

fun search_from :: "regex \<Rightarrow> nat \<Rightarrow> string \<Rightarrow> (nat \<times> nat list) option" where
  "search_from re i [] = map_option (Pair i) (match_here re [])"
| "search_from re i (c # cs) =
     (case match_here re (c # cs) of
        Some ks \<Rightarrow> Some (i, ks)
      | None \<Rightarrow> search_from re (Suc i) cs)"

definition js_match :: "regex \<Rightarrow> string \<Rightarrow> (nat \<times> nat list) option" where
  "js_match re s = search_from re 0 s"

text \<open>The whole match, and the text the \<open>g\<close>-th atom consumed (a capture group around
  that atom).\<close>

definition matched :: "string \<Rightarrow> nat \<times> nat list \<Rightarrow> string" where
  "matched s m = take (sum_list (snd m)) (drop (fst m) s)"

definition group :: "nat \<Rightarrow> string \<Rightarrow> nat \<times> nat list \<Rightarrow> string" where
  "group g s m = take (snd m ! g) (drop (fst m + sum_list (take g (snd m))) s)"

text \<open>The length of the match at the head of a string.\<close>

definition match_len :: "regex \<Rightarrow> string \<Rightarrow> nat option" where
  "match_len re s = map_option sum_list (match_here re s)"

text \<open>\<^verbatim>\<open>s.replace(re, r)\<close> with the global flag and a replacement without \<^verbatim>\<open>$\<close>:
  matches are found left to right, each search starting where the last match ended;
  after an empty match the next code unit is copied and the search moves on by one.\<close>

function replace_all :: "regex \<Rightarrow> string \<Rightarrow> string \<Rightarrow> string" where
  "replace_all re r [] = (case match_len re [] of Some n \<Rightarrow> r | None \<Rightarrow> [])"
| "replace_all re r (c # cs) =
     (case match_len re (c # cs) of
        None \<Rightarrow> c # replace_all re r cs
      | Some n \<Rightarrow>
          (if n = 0 then r @ c # replace_all re r cs
           else r @ replace_all re r (drop n (c # cs))))"
  by pat_completeness auto
termination
  by (relation "measure (\<lambda>(re, r, s). length s)") auto

text \<open>\<^verbatim>\<open>s.split(re)\<close> without a limit, for a regex without capture groups: \<open>tok\<close>
  holds the code units since the end of the last separator.\<close>

function split_from :: "regex \<Rightarrow> string \<Rightarrow> string \<Rightarrow> string list" where
  "split_from re tok [] = [tok]"
| "split_from re tok (c # cs) =
     (case match_len re (c # cs) of
        None \<Rightarrow> split_from re (tok @ [c]) cs
      | Some n \<Rightarrow>
          (if n = 0 then
             (if tok = [] then split_from re [c] cs
              else tok # split_from re [] (c # cs))
           else tok # split_from re [] (drop n (c # cs))))"
  by pat_completeness auto
termination
  by (relation "measure (\<lambda>(re, tok, s). 2 * length s + (if tok = [] then 0 else 1))") auto

definition js_split :: "regex \<Rightarrow> string \<Rightarrow> string list" where
  "js_split re s =
     (if s = [] then (case match_len re [] of Some n \<Rightarrow> [] | None \<Rightarrow> [[]])
      else split_from re [] s)"

text \<open>Atoms for a literal, with and without the \<^verbatim>\<open>i\<close> flag. Under the flag two
  code units match when their canonical (upper-case) forms agree; below U+0100 that
  maps a-z and U+00E0 .. U+00FE (U+00F7, the division sign, apart) down by 32.\<close>

definition canonicalize :: "char \<Rightarrow> char" where
  "canonicalize c = (let n = code c in
     if (97 \<le> n \<and> n \<le> 122) \<or> (224 \<le> n \<and> n \<le> 254 \<and> n \<noteq> 247)
     then char_of (n - 32) else c)"

definition lit :: "char \<Rightarrow> atom" where
  "lit c = Atom (\<lambda>d. d = c) 1 (Some 1) True"

definition lit_i :: "char \<Rightarrow> atom" where
  "lit_i c = Atom (\<lambda>d. canonicalize d = canonicalize c) 1 (Some 1) True"

text \<open>\<^verbatim>\<open>.\<close> matches every code unit but a line terminator.\<close>

definition dot :: "char \<Rightarrow> bool" where
  "dot c = (\<not> is_line_terminator c)"

section \<open>The text helpers of the Post Writer (write-posts.js)\<close>

text \<open>\<^verbatim>\<open>/[^\w\s-]/g\<close>, \<^verbatim>\<open>/\s+/g\<close>, \<^verbatim>\<open>/#{1,6}\s/g\<close>, \<^verbatim>\<open>/\*\*/g\<close>, \<^verbatim>\<open>/\n/g\<close>.\<close>

definition re_not_slug_char :: regex where
  "re_not_slug_char = [Atom (\<lambda>c. \<not> (is_word c \<or> is_space c \<or> c = CHR ''-'')) 1 (Some 1) True]"

definition re_spaces :: regex where
  "re_spaces = [Atom is_space 1 None True]"

definition re_heading :: regex where
  "re_heading = [Atom (\<lambda>c. c = CHR ''#'') 1 (Some 6) True, Atom is_space 1 (Some 1) True]"

definition re_bold :: regex where
  "re_bold = [lit CHR ''*'', lit CHR ''*'']"

definition re_newline :: regex where
  "re_newline = [lit (CHR 0x0A)]"

text \<open>
  \<^verbatim>\<open>function generateSlug(title) {
    return title.toLowerCase().replace(/[^\w\s-]/g, '').replace(/\s+/g, '-').substring(0, 80) }\<close>
\<close>

definition generateSlug :: "string \<Rightarrow> string" where
  "generateSlug title =
     substring0 80 (replace_all re_spaces ''-'' (replace_all re_not_slug_char [] (toLowerCase title)))"

text \<open>
  \<^verbatim>\<open>function generateExcerpt(content) {
    const plain = content.replace(/#{1,6}\s/g, '').replace(/\*\*/g, '').replace(/\n/g, ' ').trim()
    return plain.substring(0, 160) + '...' }\<close>
\<close>

definition generateExcerpt :: "string \<Rightarrow> string" where
  "generateExcerpt content =
     (let plain = trim (replace_all re_newline '' ''
                    (replace_all re_bold [] (replace_all re_heading [] content)))
      in substring0 160 plain @ ''...'')"

text \<open>
  \<^verbatim>\<open>function calculateReadingTime(content) {
    const words = content.split(/\s+/).length
    return Math.ceil(words / 200) }\<close>
  \<open>words\<close> is a natural number, so the ceiling of the quotient is \<open>(words + 199) div 200\<close>.
\<close>

definition calculateReadingTime :: "string \<Rightarrow> nat" where
  "calculateReadingTime content =
     (let words = length (js_split re_spaces content) in (words + 199) div 200)"

section \<open>The text helpers of the Alert Ingestor (automation.js)\<close>

text \<open>
  \<^verbatim>\<open>function generateSlug(text) {
    return text.toLowerCase().replace(/[^\w\s-]/g, '').replace(/\s+/g, '-').substring(0, 100) }\<close>
\<close>

definition generateSlug_automation :: "string \<Rightarrow> string" where
  "generateSlug_automation text =
     substring0 100 (replace_all re_spaces ''-'' (replace_all re_not_slug_char [] (toLowerCase text)))"

text \<open>\<^verbatim>\<open>/Google Alert for:\s*(.+)/i\<close>; the group is atom 18.\<close>

definition re_query :: regex where
  "re_query = map lit_i ''Google Alert for:'' @ [Atom is_space 0 None True, Atom dot 1 None True]"

text \<open>\<^verbatim>\<open>/https?:\/\/[^\s\n]+/i\<close>.\<close>

definition re_url :: regex where
  "re_url = map lit_i ''http'' @ [Atom (\<lambda>d. canonicalize d = CHR ''S'') 0 (Some 1) True]
            @ map lit_i ''://'' @ [Atom (\<lambda>c. \<not> (is_space c \<or> c = CHR 0x0A)) 1 None True]"

text \<open>\<^verbatim>\<open>/<h3[^>]*>(.*?)<\/h3>/i\<close> (the group is atom 5) and \<^verbatim>\<open>/<p[^>]*>(.*?)<\/p>/i\<close>
  (the group is atom 4); \<^verbatim>\<open>/<[^>]+>/g\<close>.\<close>

definition re_h3 :: regex where
  "re_h3 = map lit_i ''<h3'' @ [Atom (\<lambda>c. c \<noteq> CHR ''>'') 0 None True, lit_i CHR ''>'',
             Atom dot 0 None False] @ map lit_i ''</h3>''"

definition re_p :: regex where
  "re_p = map lit_i ''<p'' @ [Atom (\<lambda>c. c \<noteq> CHR ''>'') 0 None True, lit_i CHR ''>'',
            Atom dot 0 None False] @ map lit_i ''</p>''"

definition re_tag :: regex where
  "re_tag = [lit CHR ''<'', Atom (\<lambda>c. c \<noteq> CHR ''>'') 1 None True, lit CHR ''>'']"

section \<open>Values, errors and the console\<close>

text \<open>A JSON value as \<^verbatim>\<open>JSON.parse\<close> and the store return it; \<open>JUndefined\<close> is what
  reading an absent property gives. An object is its list of properties.\<close>

datatype json = JUndefined | JNull | JBool bool | JNum int | JStr string
  | JArr "json list" | JObj "(string \<times> json) list"

type_synonym obj = "(string \<times> json) list"

definition get_field :: "obj \<Rightarrow> string \<Rightarrow> json" where
  "get_field ob k = (case map_of ob k of None \<Rightarrow> JUndefined | Some v \<Rightarrow> v)"

text \<open>What the scripts can throw or be handed: a \<^verbatim>\<open>TypeError\<close> of the runtime, an error
  thrown by a client library (mail session, text completion, \<^verbatim>\<open>JSON.parse\<close>), and the
  \<^verbatim>\<open>error\<close> object the store returns. Each carries its \<^verbatim>\<open>message\<close>.\<close>

datatype error = TypeError string | Thrown string | StoreError string

fun message :: "error \<Rightarrow> string" where
  "message (TypeError m) = m"
| "message (Thrown m) = m"
| "message (StoreError m) = m"

text \<open>\<^verbatim>\<open>value.key\<close>: a \<^verbatim>\<open>TypeError\<close> on \<^verbatim>\<open>null\<close> and \<^verbatim>\<open>undefined\<close>, the property of an
  object, \<^verbatim>\<open>undefined\<close> on every other value (the keys read here are never an index or
  \<^verbatim>\<open>length\<close>).\<close>

fun property :: "json \<Rightarrow> string \<Rightarrow> error + json" where
  "property JNull k = Inl (TypeError (''Cannot read properties of null (reading '' @ [CHR 0x27] @ k @ [CHR 0x27] @ '')''))"
| "property JUndefined k = Inl (TypeError (''Cannot read properties of undefined (reading '' @ [CHR 0x27] @ k @ [CHR 0x27] @ '')''))"
| "property (JObj ob) k = Inr (get_field ob k)"
| "property v k = Inr JUndefined"

text \<open>A natural number in a template literal.\<close>

fun show_nat :: "nat \<Rightarrow> string" where
  "show_nat n = (if n < 10 then [char_of (48 + n)]
                 else show_nat (n div 10) @ [char_of (48 + n mod 10)])"

text \<open>The calls a run makes to its collaborators, in order.\<close>

datatype call =
    MailConnect | MailOpen | MailSearch | MailFetch nat | MailFlagSeen nat | MailLogout
  | CompleteIdea nat | StoreInsertIdea nat
  | StoreSelectPending | CompletePost nat | CompleteMeta nat | StoreInsertPost nat
  | StoreUpdateIdea nat

text \<open>What both scripts keep while they run: the console (\<^verbatim>\<open>console.log\<close> and
  \<^verbatim>\<open>console.error\<close> lines, in order), the calls made, and the counter \<^verbatim>\<open>errors\<close>.\<close>

record proc =
  console :: "string list"
  calls :: "call list"
  errors :: nat

definition say :: "string \<Rightarrow> 'a proc_scheme \<Rightarrow> 'a proc_scheme" where
  "say l w = w\<lparr>console := console w @ [l]\<rparr>"

definition called :: "call \<Rightarrow> 'a proc_scheme \<Rightarrow> 'a proc_scheme" where
  "called c w = w\<lparr>calls := calls w @ [c]\<rparr>"

text \<open>How a script ends: its entry function returns, \<^verbatim>\<open>process.exit(n)\<close> is called, or
  a promise rejection is left unhandled.\<close>

datatype outcome = Returned | Exited nat | Unhandled error

section \<open>The Alert Ingestor (automation.js)\<close>

text \<open>What the mail parser returns for a message: \<open>None\<close> where the field is absent
  (\<^verbatim>\<open>undefined\<close>, or \<^verbatim>\<open>false\<close> for a missing body). The date is kept as the text
  \<^verbatim>\<open>toISOString\<close> gives for it.\<close>

record email =
  mail_subject :: "string option"
  mail_text :: "string option"
  mail_html :: "string option"
  mail_date :: "string option"

record alert =
  query :: string
  url :: string
  title :: string
  snippet :: string
  date :: "string option"

text \<open>Lines 44-45 of \<^verbatim>\<open>parseAlert\<close>:
  \<^verbatim>\<open>const queryMatch = email.subject.match(/Google Alert for:\s*(.+)/i)
  const query = queryMatch ? queryMatch[1].trim() : ''\<close>\<close>

definition alertQuery :: "string \<Rightarrow> string" where
  "alertQuery subj =
     (case js_match re_query subj of None \<Rightarrow> [] | Some m \<Rightarrow> trim (group 18 subj m))"

text \<open>\<^verbatim>\<open>parseAlert(email)\<close>. Reading \<^verbatim>\<open>email.subject.match\<close> throws when the message
  has no subject.\<close>

definition parseAlert :: "email \<Rightarrow> error + alert" where
  "parseAlert e =
     (let txt = (case mail_text e of None \<Rightarrow> [] | Some t \<Rightarrow> t);
          html = (case mail_html e of None \<Rightarrow> [] | Some h \<Rightarrow> h)
      in case mail_subject e of
           None \<Rightarrow> Inl (TypeError ''Cannot read properties of undefined (reading 'match')'')
         | Some subj \<Rightarrow>
             (let q = alertQuery subj;
                  u = (case js_match re_url txt of
                         Some m \<Rightarrow> matched txt m
                       | None \<Rightarrow> (case js_match re_url html of
                                    Some m \<Rightarrow> matched html m
                                  | None \<Rightarrow> []));
                  t = (if html \<noteq> [] then
                         (case js_match re_h3 html of
                            Some m \<Rightarrow> trim (replace_all re_tag [] (group 5 html m))
                          | None \<Rightarrow> q)
                       else q);
                  sn = (if html \<noteq> [] then
                          (case js_match re_p html of
                             Some m \<Rightarrow> trim (replace_all re_tag [] (group 4 html m))
                           | None \<Rightarrow> substring0 500 txt)
                        else substring0 500 txt)
              in Inr \<lparr>query = q, url = u, title = t, snippet = sn, date = mail_date e\<rparr>))"

text \<open>The collaborators of one run of the ingestor. The mail session: whether
  \<^verbatim>\<open>connect\<close>, \<^verbatim>\<open>mailboxOpen\<close>, \<^verbatim>\<open>search\<close> and \<^verbatim>\<open>logout\<close> throw; the identifiers of
  the messages of the known sender, in mailbox order (each once); what \<^verbatim>\<open>fetchOne\<close>
  followed by \<^verbatim>\<open>simpleParser\<close> gives for a message; whether the \<open>n\<close>-th call of
  \<^verbatim>\<open>messageFlagsAdd\<close> of the run throws. The text completion: for a message, the error
  the call or \<^verbatim>\<open>JSON.parse\<close> throws, or the parsed value. The store: the error, if any,
  that the insert made for a message returns.\<close>

record ingest_env =
  connect_error :: "string option"
  open_error :: "string option"
  search_error :: "string option"
  logout_error :: "string option"
  inbox :: "nat list"
  fetch :: "nat \<Rightarrow> error + email"
  flag_error :: "nat \<Rightarrow> string option"
  idea_completion :: "nat \<Rightarrow> error + json"
  idea_insert_error :: "nat \<Rightarrow> string option"

text \<open>The state of a run: the messages flagged \<^verbatim>\<open>\Seen\<close>, the number of
  \<^verbatim>\<open>messageFlagsAdd\<close> calls made, the rows of \<^verbatim>\<open>content_ideas\<close>, and the counters.\<close>

record ingestor = proc +
  seen :: "nat set"
  flag_calls :: nat
  content_ideas :: "obj list"
  processed :: nat
  skipped :: nat

text \<open>\<^verbatim>\<open>client.search({ from: 'googlealerts-noreply@google.com', seen: false })\<close>.\<close>

definition search :: "ingest_env \<Rightarrow> 'a ingestor_scheme \<Rightarrow> nat list" where
  "search env w = filter (\<lambda>u. u \<notin> seen w) (inbox env)"

text \<open>\<^verbatim>\<open>generateSlug(idea.suggested_title)\<close>: \<^verbatim>\<open>toLowerCase\<close> is a method of strings only.\<close>

definition slugOf :: "json \<Rightarrow> error + string" where
  "slugOf v = (case v of
       JStr t \<Rightarrow> Inr (generateSlug_automation t)
     | JNull \<Rightarrow> Inl (TypeError ''Cannot read properties of null (reading 'toLowerCase')'')
     | JUndefined \<Rightarrow> Inl (TypeError ''Cannot read properties of undefined (reading 'toLowerCase')'')
     | _ \<Rightarrow> Inl (TypeError ''text.toLowerCase is not a function''))"

text \<open>The object literal of \<^verbatim>\<open>saveContentIdea\<close> (lines 87-106). Its properties are
  evaluated in order: \<^verbatim>\<open>idea.suggested_title\<close> and \<^verbatim>\<open>generateSlug\<close> can throw, and once
  they have not, \<^verbatim>\<open>idea\<close> is an object.\<close>

definition contentIdeaRow :: "alert \<Rightarrow> json \<Rightarrow> error + obj" where
  "contentIdeaRow a idea =
     (case property idea ''suggested_title'' of
        Inl e \<Rightarrow> Inl e
      | Inr st \<Rightarrow>
         (case slugOf st of
            Inl e \<Rightarrow> Inl e
          | Inr sl \<Rightarrow>
             (let f = (\<lambda>k. case property idea k of Inl e \<Rightarrow> JUndefined | Inr v \<Rightarrow> v)
              in Inr
               [(''title'', JStr (''Content Idea: '' @ title a)),
                (''slug'', JStr sl),
                (''source'', JStr ''google_alerts''),
                (''topic'', f ''topic''),
                (''urgency'', f ''urgency''),
                (''alert_query'', JStr (query a)),
                (''alert_date'', (case date a of None \<Rightarrow> JUndefined | Some d \<Rightarrow> JStr d)),
                (''original_url'', JStr (url a)),
                (''source_title'', JStr (title a)),
                (''source_snippet'', JStr (snippet a)),
                (''target_keywords'', f ''target_keywords''),
                (''target_audience'', f ''target_audience''),
                (''search_intent'', f ''search_intent''),
                (''suggested_title'', f ''suggested_title''),
                (''suggested_outline'', f ''suggested_outline''),
                (''word_count_estimate'', f ''word_count_estimate''),
                (''seo_priority_score'', f ''seo_priority_score''),
                (''status'', JStr ''pending'')])))"

text \<open>\<^verbatim>\<open>saveContentIdea(alert, idea)\<close>: the pending exception, if any, and the state.\<close>

definition saveContentIdea ::
  "ingest_env \<Rightarrow> nat \<Rightarrow> alert \<Rightarrow> json \<Rightarrow> ingestor \<Rightarrow> error option \<times> ingestor" where
  "saveContentIdea env uid a idea w =
     (case contentIdeaRow a idea of
        Inl e \<Rightarrow> (Some e, w)
      | Inr row \<Rightarrow>
         (let w1 = called (StoreInsertIdea uid) w
          in case idea_insert_error env uid of
               Some m \<Rightarrow> (Some (StoreError m), say (''Supabase insert error: '' @ m) w1)
             | None \<Rightarrow> (None, w1\<lparr>content_ideas := content_ideas w1 @ [row]\<rparr>)))"

text \<open>\<^verbatim>\<open>markAsRead(client, uid)\<close>.\<close>

definition markAsRead :: "ingest_env \<Rightarrow> nat \<Rightarrow> ingestor \<Rightarrow> error option \<times> ingestor" where
  "markAsRead env uid w =
     (let w1 = (called (MailFlagSeen uid) w)\<lparr>flag_calls := Suc (flag_calls w)\<rparr>
      in case flag_error env (flag_calls w) of
           Some m \<Rightarrow> (Some (Thrown m), w1)
         | None \<Rightarrow> (None, w1\<lparr>seen := insert uid (seen w1)\<rparr>))"

text \<open>The body of the inner \<^verbatim>\<open>try\<close> (lines 156-171).\<close>

definition tryMessage ::
  "ingest_env \<Rightarrow> nat \<Rightarrow> email \<Rightarrow> ingestor \<Rightarrow> error option \<times> ingestor" where
  "tryMessage env uid e w =
     (case parseAlert e of
        Inl err \<Rightarrow> (Some err, w)
      | Inr a \<Rightarrow>
         (if query a = [] then
            markAsRead env uid ((say ''Skipped: not a Google Alert'' w)\<lparr>skipped := Suc (skipped w)\<rparr>)
          else
            (let w1 = called (CompleteIdea uid) (say (''Processing: '' @ query a) w)
             in case idea_completion env uid of
                  Inl err \<Rightarrow> (Some err, w1)
                | Inr idea \<Rightarrow>
                   (case saveContentIdea env uid a idea w1 of
                      (Some err, w2) \<Rightarrow> (Some err, w2)
                    | (None, w2) \<Rightarrow>
                       (case markAsRead env uid w2 of
                          (Some err, w3) \<Rightarrow> (Some err, w3)
                        | (None, w3) \<Rightarrow>
                           (None, say (''Saved: '' @ (case property idea ''suggested_title'' of
                                                       Inr (JStr t) \<Rightarrow> t | _ \<Rightarrow> []))
                                    (w3\<lparr>processed := Suc (processed w3)\<rparr>)))))))"

text \<open>One turn of the loop (lines 152-177): the fetch and the parse of the message are
  outside the inner \<^verbatim>\<open>try\<close>; its \<^verbatim>\<open>catch\<close> logs, counts and marks the message read. An
  exception that leaves the turn is caught by the outer \<^verbatim>\<open>catch\<close>.\<close>

definition processMessage :: "ingest_env \<Rightarrow> nat \<Rightarrow> ingestor \<Rightarrow> error option \<times> ingestor" where
  "processMessage env uid w =
     (let w0 = called (MailFetch uid) w
      in case fetch env uid of
           Inl err \<Rightarrow> (Some err, w0)
         | Inr e \<Rightarrow>
            (case tryMessage env uid e w0 of
               (None, w1) \<Rightarrow> (None, w1)
             | (Some err, w1) \<Rightarrow>
                markAsRead env uid
                  ((say (''Error processing email: '' @ message err) w1)\<lparr>errors := Suc (errors w1)\<rparr>)))"

primrec processMessages ::
  "ingest_env \<Rightarrow> nat list \<Rightarrow> ingestor \<Rightarrow> error option \<times> ingestor" where
  "processMessages env [] w = (None, w)"
| "processMessages env (uid # uids) w =
     (case processMessage env uid w of
        (Some err, w1) \<Rightarrow> (Some err, w1)
      | (None, w1) \<Rightarrow> processMessages env uids w1)"

text \<open>The outer \<^verbatim>\<open>catch\<close> (lines 182-184) and the \<^verbatim>\<open>finally\<close> (lines 185-187):
  \<^verbatim>\<open>process.exit(1)\<close> ends the process before the \<^verbatim>\<open>finally\<close> block.\<close>

definition automationError :: "error \<Rightarrow> ingestor \<Rightarrow> outcome \<times> ingestor" where
  "automationError err w = (Exited 1, say (''Automation error: '' @ message err) w)"

definition logout :: "ingest_env \<Rightarrow> ingestor \<Rightarrow> outcome \<times> ingestor" where
  "logout env w =
     (case logout_error env of
        Some m \<Rightarrow> (Unhandled (Thrown m), called MailLogout w)
      | None \<Rightarrow> (Returned, called MailLogout w))"

text \<open>\<^verbatim>\<open>runAutomation()\<close>.\<close>

definition runAutomation :: "ingest_env \<Rightarrow> ingestor \<Rightarrow> outcome \<times> ingestor" where
  "runAutomation env w =
     (let w0 = (say ''Starting content automation...'' w)
                 \<lparr>errors := 0, processed := 0, skipped := 0\<rparr>;
          w1 = called MailConnect w0
      in case connect_error env of
           Some m \<Rightarrow> automationError (Thrown m) w1
         | None \<Rightarrow>
            (let w2 = called MailOpen (say ''Connected to Gmail'' w1)
             in case open_error env of
                  Some m \<Rightarrow> automationError (Thrown m) w2
                | None \<Rightarrow>
                   (let w3 = called MailSearch w2
                    in case search_error env of
                         Some m \<Rightarrow> automationError (Thrown m) w3
                       | None \<Rightarrow>
                          (let messages = search env w3;
                               w4 = say (''Found '' @ show_nat (length messages)
                                          @ '' unread Google Alerts'') w3
                           in if messages = [] then
                                logout env (say ''No new alerts to process'' w4)
                              else
                                (case processMessages env messages w4 of
                                   (Some err, w5) \<Rightarrow> automationError err w5
                                 | (None, w5) \<Rightarrow>
                                    logout env
                                      (say (CHR 0x0A # ''Summary: '' @ show_nat (processed w5)
                                            @ '' processed, '' @ show_nat (skipped w5)
                                            @ '' skipped, '' @ show_nat (errors w5)
                                            @ '' errors'') w5))))))"

section \<open>The Post Writer (write-posts.js)\<close>

text \<open>A row of \<^verbatim>\<open>content_ideas\<close> as \<^verbatim>\<open>select('*')\<close> returns it, with the columns the
  script reads outside its prompts and the two the query names: the identity the store
  assigned, the status, the numeric priority score, the suggested title and the topic
  (text, or \<^verbatim>\<open>null\<close>), and the keywords.\<close>

record content_idea =
  idea_id :: nat
  status :: string
  seo_priority_score :: int
  suggested_title :: "string option"
  topic :: "string option"
  target_keywords :: json

text \<open>The collaborators of one run of the writer. The store: the error, if any, the
  select returns; for an idea, the error the insert of its post and the update of its
  status return. The text completion: for an idea, the error the call throws or the
  \<^verbatim>\<open>content\<close> of the first choice (\<open>None\<close>: \<^verbatim>\<open>null\<close>), for the post and for the meta
  description. The clock: the two timestamps of the insert.\<close>

record write_env =
  select_error :: "string option"
  post_completion :: "nat \<Rightarrow> error + string option"
  meta_completion :: "nat \<Rightarrow> error + string option"
  post_insert_error :: "nat \<Rightarrow> string option"
  idea_update_error :: "nat \<Rightarrow> string option"
  now :: "nat \<Rightarrow> string \<times> string"

record writer = proc +
  ideas :: "content_idea list"
  blog_posts :: "obj list"
  written :: nat

definition POSTS_PER_DAY :: nat where
  "POSTS_PER_DAY = 3"

text \<open>The store's answer to the query of \<^verbatim>\<open>getPendingIdeas\<close>,
  \<^verbatim>\<open>.eq('status', 'pending').order('seo_priority_score', { ascending: false }).limit(POSTS_PER_DAY)\<close>:
  \<^verbatim>\<open>{ data, error }\<close>, with the rows or with the error.\<close>

definition selectPending :: "content_idea list \<Rightarrow> content_idea list" where
  "selectPending rows =
     take POSTS_PER_DAY
       (sort_key (\<lambda>r. - seo_priority_score r) (filter (\<lambda>r. status r = ''pending'') rows))"

definition storeSelect :: "write_env \<Rightarrow> writer \<Rightarrow> content_idea list option \<times> string option" where
  "storeSelect env w =
     (case select_error env of
        Some m \<Rightarrow> (None, Some m)
      | None \<Rightarrow> (Some (selectPending (ideas w)), None))"

text \<open>\<^verbatim>\<open>getPendingIdeas()\<close>: on an error it logs and returns \<^verbatim>\<open>[]\<close>; else \<^verbatim>\<open>data || []\<close>.\<close>

definition getPendingIdeas :: "write_env \<Rightarrow> writer \<Rightarrow> content_idea list \<times> writer" where
  "getPendingIdeas env w =
     (let w1 = called StoreSelectPending w
      in case storeSelect env w of
           (d, Some m) \<Rightarrow> ([], say (''Error fetching ideas: '' @ m) w1)
         | (None, None) \<Rightarrow> ([], w1)
         | (Some rows, None) \<Rightarrow> (rows, w1))"

text \<open>\<^verbatim>\<open>generateBlogPost(idea)\<close>: the content of the first choice, which can be \<^verbatim>\<open>null\<close>.\<close>

definition generateBlogPost ::
  "write_env \<Rightarrow> content_idea \<Rightarrow> writer \<Rightarrow> (error + string option) \<times> writer" where
  "generateBlogPost env idea w = (post_completion env (idea_id idea), called (CompletePost (idea_id idea)) w)"

text \<open>\<^verbatim>\<open>generateMetaDescription(title, content)\<close>: \<^verbatim>\<open>content.substring(0, 500)\<close> is
  evaluated before the call, \<^verbatim>\<open>.trim()\<close> on its answer.\<close>

definition generateMetaDescription ::
  "write_env \<Rightarrow> content_idea \<Rightarrow> string option \<Rightarrow> writer \<Rightarrow> (error + string) \<times> writer" where
  "generateMetaDescription env idea content w =
     (case content of
        None \<Rightarrow> (Inl (TypeError ''Cannot read properties of null (reading 'substring')''), w)
      | Some c \<Rightarrow>
         (let w1 = called (CompleteMeta (idea_id idea)) w
          in case meta_completion env (idea_id idea) of
               Inl e \<Rightarrow> (Inl e, w1)
             | Inr None \<Rightarrow> (Inl (TypeError ''Cannot read properties of null (reading 'trim')''), w1)
             | Inr (Some m) \<Rightarrow> (Inr (trim m), w1)))"

text \<open>
  \<^verbatim>\<open>function generateCategorySlug(category) {
    if (!category) return null
    return category.toLowerCase().replace(/[^\w\s-]/g, '').replace(/\s+/g, '-') }\<close>
  on a text column: \<^verbatim>\<open>null\<close> and the empty string are falsy.
\<close>

definition generateCategorySlug :: "string option \<Rightarrow> json" where
  "generateCategorySlug category =
     (case category of
        None \<Rightarrow> JNull
      | Some c \<Rightarrow>
         (if c = [] then JNull
          else JStr (replace_all re_spaces ''-'' (replace_all re_not_slug_char [] (toLowerCase c)))))"

definition json_text :: "string option \<Rightarrow> json" where
  "json_text v = (case v of None \<Rightarrow> JNull | Some t \<Rightarrow> JStr t)"

text \<open>\<^verbatim>\<open>saveBlogPost(idea, content, metaDescription)\<close>: \<^verbatim>\<open>generateSlug\<close> throws on a
  \<^verbatim>\<open>null\<close> title; a store error is logged and thrown; else the slug is returned.\<close>

definition blogPostRow :: "write_env \<Rightarrow> content_idea \<Rightarrow> string \<Rightarrow> string \<Rightarrow> string \<Rightarrow> string \<Rightarrow> obj" where
  "blogPostRow env idea t sl content metaDescription =
     [(''title'', JStr t),
      (''slug'', JStr sl),
      (''excerpt'', JStr (generateExcerpt content)),
      (''content'', JStr content),
      (''meta_title'', JStr t),
      (''meta_description'', JStr metaDescription),
      (''keywords'', target_keywords idea),
      (''category'', json_text (topic idea)),
      (''category_slug'', generateCategorySlug (topic idea)),
      (''reading_time'', JNum (int (calculateReadingTime content))),
      (''author_name'', JStr ''Meet Your Clinic''),
      (''status'', JStr ''draft''),
      (''source_idea_id'', JNum (int (idea_id idea))),
      (''created_at'', JStr (fst (now env (idea_id idea)))),
      (''updated_at'', JStr (snd (now env (idea_id idea))))]"

definition saveBlogPost ::
  "write_env \<Rightarrow> content_idea \<Rightarrow> string \<Rightarrow> string \<Rightarrow> writer \<Rightarrow> (error + string) \<times> writer" where
  "saveBlogPost env idea content metaDescription w =
     (case suggested_title idea of
        None \<Rightarrow> (Inl (TypeError ''Cannot read properties of null (reading 'toLowerCase')''), w)
      | Some t \<Rightarrow>
         (let sl = generateSlug t;
              w1 = called (StoreInsertPost (idea_id idea)) w
          in case post_insert_error env (idea_id idea) of
               Some m \<Rightarrow> (Inl (StoreError m), say (''Error saving post: '' @ m) w1)
             | None \<Rightarrow>
                (Inr sl, w1\<lparr>blog_posts := blog_posts w1
                              @ [blogPostRow env idea t sl content metaDescription]\<rparr>)))"

text \<open>\<^verbatim>\<open>markIdeaAsProcessed(ideaId)\<close>: the update
  \<^verbatim>\<open>.update({ status: 'processed' }).eq('id', ideaId)\<close>; a store error is logged and
  not thrown.\<close>

definition markIdeaAsProcessed :: "write_env \<Rightarrow> nat \<Rightarrow> writer \<Rightarrow> writer" where
  "markIdeaAsProcessed env ideaId w =
     (let w1 = called (StoreUpdateIdea ideaId) w
      in case idea_update_error env ideaId of
           Some m \<Rightarrow> say (''Error updating idea status: '' @ m) w1
         | None \<Rightarrow>
            w1\<lparr>ideas := map (\<lambda>r. if idea_id r = ideaId then r\<lparr>status := ''processed''\<rparr> else r)
                            (ideas w1)\<rparr>)"

text \<open>The body of the \<^verbatim>\<open>try\<close> of the loop (lines 171-179).\<close>

definition tryIdea :: "write_env \<Rightarrow> content_idea \<Rightarrow> writer \<Rightarrow> error option \<times> writer" where
  "tryIdea env idea w =
     (let w0 = say (CHR 0x0A # ''Writing: ''
                      @ (case suggested_title idea of None \<Rightarrow> ''null'' | Some t \<Rightarrow> t)) w
      in case generateBlogPost env idea w0 of
           (Inl e, w1) \<Rightarrow> (Some e, w1)
         | (Inr content, w1) \<Rightarrow>
            (case generateMetaDescription env idea content w1 of
               (Inl e, w2) \<Rightarrow> (Some e, w2)
             | (Inr metaDescription, w2) \<Rightarrow>
                (case saveBlogPost env idea (case content of None \<Rightarrow> [] | Some c \<Rightarrow> c)
                        metaDescription w2 of
                   (Inl e, w3) \<Rightarrow> (Some e, w3)
                 | (Inr sl, w3) \<Rightarrow>
                    (let w4 = markIdeaAsProcessed env (idea_id idea) w3
                     in (None, say (''Saved draft: /blog/'' @ sl)
                                 (w4\<lparr>written := Suc (written w4)\<rparr>))))))"

text \<open>One turn of the loop (lines 169-185): the \<^verbatim>\<open>catch\<close> logs and counts.\<close>

definition processIdea :: "write_env \<Rightarrow> content_idea \<Rightarrow> writer \<Rightarrow> writer" where
  "processIdea env idea w =
     (case tryIdea env idea w of
        (None, w1) \<Rightarrow> w1
      | (Some e, w1) \<Rightarrow>
         (say (''Error processing idea '' @ show_nat (idea_id idea) @ '': '' @ message e) w1)
           \<lparr>errors := Suc (errors w1)\<rparr>)"

primrec processIdeas :: "write_env \<Rightarrow> content_idea list \<Rightarrow> writer \<Rightarrow> writer" where
  "processIdeas env [] w = w"
| "processIdeas env (idea # rest) w = processIdeas env rest (processIdea env idea w)"

text \<open>\<^verbatim>\<open>run()\<close>. No path calls \<^verbatim>\<open>process.exit\<close>, and every exception of the loop is
  caught.\<close>

definition run :: "write_env \<Rightarrow> writer \<Rightarrow> outcome \<times> writer" where
  "run env w =
     (case getPendingIdeas env (say ''Starting blog post generation...'' w) of
        (selected, w1) \<Rightarrow>
          (let w2 = say (''Found '' @ show_nat (length selected) @ '' pending ideas'') w1
           in if selected = [] then (Returned, say ''No pending ideas to process'' w2)
              else
                (let w3 = processIdeas env selected (w2\<lparr>errors := 0, written := 0\<rparr>)
                 in (Returned, say (CHR 0x0A # ''Summary: '' @ show_nat (written w3)
                                    @ '' posts written, '' @ show_nat (errors w3) @ '' errors'') w3))))"

section \<open>Plain descriptions of the text helpers\<close>

text \<open>The functions of this section do not come from the scripts: they say in plain
  list operations what the regular expressions of the scripts are proved to compute, or
  what the written description of a helper asks for.\<close>

text \<open>Every run of white space becomes one hyphen.\<close>

function hyphenate :: "string \<Rightarrow> string" where
  "hyphenate [] = []"
| "hyphenate (c # cs) =
     (if is_space c then CHR ''-'' # hyphenate (dropWhile is_space cs) else c # hyphenate cs)"
  by pat_completeness auto
termination
  by (relation "measure length") (auto simp: le_imp_less_Suc length_dropWhile_le)

text \<open>The code units a slug keeps.\<close>

definition slug_char :: "char \<Rightarrow> bool" where
  "slug_char c = (is_word c \<or> is_space c \<or> c = CHR ''-'')"

text \<open>A text made of words: a first word, then separators each followed by a word. A
  word is not empty and holds no white space; a separator is a non-empty run of white
  space.\<close>

fun text_of :: "string \<Rightarrow> (string \<times> string) list \<Rightarrow> string" where
  "text_of w [] = w"
| "text_of w ((sep, w') # rest) = w @ sep @ text_of w' rest"

definition is_token :: "string \<Rightarrow> bool" where
  "is_token w = (w \<noteq> [] \<and> list_all (\<lambda>c. \<not> is_space c) w)"

definition is_separator :: "string \<Rightarrow> bool" where
  "is_separator sep = (sep \<noteq> [] \<and> list_all is_space sep)"

text \<open>The words of a text: its maximal runs of code units that are not white space,
  from left to right. White space is skipped; a code unit that is not white space begins
  a word, which runs up to the next white space or to the end of the text.\<close>

function words_of :: "string \<Rightarrow> string list" where
  "words_of [] = []"
| "words_of (c # cs) =
     (if is_space c then words_of cs
      else (c # takeWhile (\<lambda>d. \<not> is_space d) cs) # words_of (dropWhile (\<lambda>d. \<not> is_space d) cs))"
  by pat_completeness auto
termination
  by (relation "measure length") (auto simp: le_imp_less_Suc length_dropWhile_le)

definition word_count :: "string \<Rightarrow> nat" where
  "word_count txt = length (words_of txt)"

text \<open>The empty pieces at the two ends of a text that is cut at its runs of white
  space: one in front when the text is empty or begins with white space, one behind
  when the text ends with white space.\<close>

definition front_piece :: "string \<Rightarrow> string list" where
  "front_piece txt = (if txt = [] \<or> is_space (hd txt) then [[]] else [])"

definition back_piece :: "string \<Rightarrow> string list" where
  "back_piece txt = (if txt \<noteq> [] \<and> is_space (last txt) then [[]] else [])"

definition edge_pieces :: "string \<Rightarrow> nat" where
  "edge_pieces txt = length (front_piece txt) + length (back_piece txt)"

text \<open>Scanning from the left, every run of one to six \<^verbatim>\<open>#\<close> (a run of \<open>h\<close> of them, met
  at its first \<^verbatim>\<open>#\<close>) that is followed by a white space code unit is removed with that
  code unit; of a longer run followed by white space, the last six are.\<close>

definition hashes :: "string \<Rightarrow> nat" where
  "hashes s = length (takeWhile (\<lambda>d. d = CHR ''#'') s)"

definition marker_here :: "string \<Rightarrow> bool" where
  "marker_here s = (1 \<le> hashes s \<and> hashes s \<le> 6 \<and> hashes s < length s \<and> is_space (s ! hashes s))"

function strip_markers :: "string \<Rightarrow> string" where
  "strip_markers [] = []"
| "strip_markers (c # cs) =
     (if marker_here (c # cs) then strip_markers (drop (Suc (hashes (c # cs))) (c # cs))
      else c # strip_markers cs)"
  by pat_completeness auto
termination
  by (relation "measure length") auto

text \<open>Scanning from the left, every pair of asterisks is removed.\<close>

fun strip_bold :: "string \<Rightarrow> string" where
  "strip_bold (a # b # cs) =
     (if a = CHR ''*'' \<and> b = CHR ''*'' then strip_bold cs else a # strip_bold (b # cs))"
| "strip_bold cs = cs"

definition newline_to_space :: "char \<Rightarrow> char" where
  "newline_to_space c = (if c = CHR 0x0A then CHR '' '' else c)"

text \<open>The excerpt as the written description has it: a heading marker is one to six
  \<^verbatim>\<open>#\<close> followed by a space, at the start of a line; \<open>fresh\<close> says that the scan is at the
  start of a line.\<close>

definition heading_marker_here :: "string \<Rightarrow> bool" where
  "heading_marker_here s =
     (1 \<le> hashes s \<and> hashes s \<le> 6 \<and> hashes s < length s \<and> s ! hashes s = CHR '' '')"

function strip_leading_markers :: "bool \<Rightarrow> string \<Rightarrow> string" where
  "strip_leading_markers fresh [] = []"
| "strip_leading_markers fresh (c # cs) =
     (if fresh \<and> heading_marker_here (c # cs)
      then strip_leading_markers False (drop (Suc (hashes (c # cs))) (c # cs))
      else c # strip_leading_markers (c = CHR 0x0A) cs)"
  by pat_completeness auto
termination
  by (relation "measure (\<lambda>(fresh, s). length s)") auto

definition excerpt_spec :: "string \<Rightarrow> string" where
  "excerpt_spec markdown =
     take 160 (trim (map newline_to_space (strip_bold (strip_leading_markers True markdown))))
       @ ''...''"

text \<open>The text after the first place where \<^verbatim>\<open>Google Alert for:\<close> stands, in any
  letter case.\<close>

definition phrase_here :: "string \<Rightarrow> bool" where
  "phrase_here s = (map canonicalize (take 17 s) = map canonicalize ''Google Alert for:'')"

fun after_phrase :: "string \<Rightarrow> string option" where
  "after_phrase [] = None"
| "after_phrase (c # cs) = (if phrase_here (c # cs) then Some (drop 17 (c # cs)) else after_phrase cs)"

text \<open>What the collaborators do for one idea of a batch of the writer: steps 1 to 3 (the
  post, the meta description, the insert of the draft) go through; and the update of the
  status goes through as well.\<close>

definition draft_saved :: "write_env \<Rightarrow> content_idea \<Rightarrow> bool" where
  "draft_saved env idea =
     (case post_completion env (idea_id idea) of
        Inr (Some c) \<Rightarrow>
          (case meta_completion env (idea_id idea) of
             Inr (Some m) \<Rightarrow>
               suggested_title idea \<noteq> None \<and> post_insert_error env (idea_id idea) = None
           | _ \<Rightarrow> False)
      | _ \<Rightarrow> False)"

definition status_updated :: "write_env \<Rightarrow> content_idea \<Rightarrow> bool" where
  "status_updated env idea =
     (draft_saved env idea \<and> idea_update_error env (idea_id idea) = None)"

definition pending :: "content_idea \<Rightarrow> bool" where
  "pending r = (status r = ''pending'')"

text \<open>The rows of a table with the status of the rows of some identities set to
  \<^verbatim>\<open>processed\<close>.\<close>

definition mark_processed :: "nat set \<Rightarrow> content_idea list \<Rightarrow> content_idea list" where
  "mark_processed S rows =
     map (\<lambda>r. if idea_id r \<in> S then r\<lparr>status := ''processed''\<rparr> else r) rows"

text \<open>The state in which the loop of the writer starts, for a batch of \<open>n\<close> ideas.\<close>

definition batch_start :: "writer \<Rightarrow> nat \<Rightarrow> writer" where
  "batch_start w n =
     (say (''Found '' @ show_nat n @ '' pending ideas'')
        (called StoreSelectPending (say ''Starting blog post generation...'' w)))
       \<lparr>errors := 0, written := 0\<rparr>"

text \<open>The state after further runs of the ingestor, each with collaborators of its
  own.\<close>

primrec later_runs :: "ingest_env list \<Rightarrow> ingestor \<Rightarrow> ingestor" where
  "later_runs [] w = w"
| "later_runs (env # envs) w = later_runs envs (snd (runAutomation env w))"

text \<open>The mail session does not fail during a run: it connects, opens the mailbox,
  searches and logs out, every message of the sender can be fetched and parsed, and no
  flag call throws.\<close>

definition mail_works :: "ingest_env \<Rightarrow> bool" where
  "mail_works env =
     (connect_error env = None \<and> open_error env = None \<and> search_error env = None
      \<and> logout_error env = None
      \<and> list_all (\<lambda>u. case fetch env u of Inr e \<Rightarrow> True | Inl err \<Rightarrow> False) (inbox env)
      \<and> (\<forall>n. flag_error env n = None))"

section \<open>Sample inputs\<close>

text \<open>A table of the writer with five pending ideas and one processed idea, and
  collaborators that never fail.\<close>

definition sample_idea :: "nat \<Rightarrow> string \<Rightarrow> int \<Rightarrow> content_idea" where
  "sample_idea i st sc =
     \<lparr>idea_id = i, status = st, seo_priority_score = sc,
      suggested_title = Some ''Dental Implants: A Guide'', topic = Some ''Dental Care'',
      target_keywords = JArr [JStr ''implants'']\<rparr>"

definition sample_write_env :: write_env where
  "sample_write_env =
     \<lparr>select_error = None,
      post_completion = (\<lambda>i. Inr (Some ''## Intro **here**'')),
      meta_completion = (\<lambda>i. Inr (Some '' A guide. '')),
      post_insert_error = (\<lambda>i. None),
      idea_update_error = (\<lambda>i. None),
      now = (\<lambda>i. (''2025-01-01T00:00:00.000Z'', ''2025-01-01T00:00:00.001Z''))\<rparr>"

definition sample_writer :: writer where
  "sample_writer =
     \<lparr>console = [], calls = [], errors = 0,
      ideas = [sample_idea 1 ''pending'' 5, sample_idea 2 ''pending'' 9,
               sample_idea 3 ''processed'' 10, sample_idea 4 ''pending'' 7,
               sample_idea 5 ''pending'' 1, sample_idea 6 ''pending'' 3],
      blog_posts = [], written = 0\<rparr>"

text \<open>A table with three pending ideas.\<close>

definition sample_writer3 :: writer where
  "sample_writer3 =
     \<lparr>console = [], calls = [], errors = 0,
      ideas = [sample_idea 1 ''pending'' 5, sample_idea 2 ''pending'' 9,
               sample_idea 4 ''pending'' 7],
      blog_posts = [], written = 0\<rparr>"

text \<open>A mailbox with three unread messages of the sender: an alert, a message that is
  no alert, and an alert for which the completion throws; and a mail session that never
  fails.\<close>

definition sample_alert_mail :: email where
  "sample_alert_mail =
     \<lparr>mail_subject = Some ''Google Alert for: dental implants'',
      mail_text = Some ''See https://example.com/a now'',
      mail_html = Some ''<h3>New <b>Dental</b> Clinic</h3><p>A new clinic opened...</p>'',
      mail_date = Some ''2025-01-01T08:00:00.000Z''\<rparr>"

definition sample_other_mail :: email where
  "sample_other_mail =
     \<lparr>mail_subject = Some ''Weekly digest'', mail_text = Some ''Hello'',
      mail_html = None, mail_date = None\<rparr>"

definition sample_idea_json :: json where
  "sample_idea_json =
     JObj [(''suggested_title'', JStr ''Top 5 Implant Clinics!''),
           (''topic'', JStr ''Dental Care''), (''urgency'', JStr ''low''),
           (''seo_priority_score'', JNum 8)]"

definition sample_ingest_env :: ingest_env where
  "sample_ingest_env =
     \<lparr>connect_error = None, open_error = None, search_error = None, logout_error = None,
      inbox = [1, 2, 3],
      fetch = (\<lambda>uid. Inr (if uid = 2 then sample_other_mail else sample_alert_mail)),
      flag_error = (\<lambda>n. None),
      idea_completion = (\<lambda>uid. if uid = 3 then Inl (Thrown ''rate limit'')
                                 else Inr sample_idea_json),
      idea_insert_error = (\<lambda>uid. None)\<rparr>"

definition sample_ingestor :: ingestor where
  "sample_ingestor =
     \<lparr>console = [], calls = [], errors = 0, seen = {}, flag_calls = 0,
      content_ideas = [], processed = 0, skipped = 0\<rparr>"

text \<open>A mailbox with two short alerts of one content, whose title stands in the HTML
  part, and a different idea for each of them.\<close>

definition other_idea_json :: json where
  "other_idea_json = JObj [(''suggested_title'', JStr ''Another Title'')]"

definition html_alert_mail :: email where
  "html_alert_mail =
     \<lparr>mail_subject = Some ''Google Alert for: spa'', mail_text = None,
      mail_html = Some ''<h3>Day Spa</h3>'', mail_date = None\<rparr>"

definition html_ingest_env :: ingest_env where
  "html_ingest_env =
     sample_ingest_env\<lparr>inbox := [1, 2], fetch := (\<lambda>uid. Inr html_alert_mail),
       idea_completion := (\<lambda>uid. Inr (if uid = 1 then sample_idea_json else other_idea_json))\<rparr>"

section \<open>What the regular expressions compute\<close>

lemma char_of_eq_code: "char_of (n::nat) = c \<longleftrightarrow> n mod 256 = code c"
  by (simp add: char_of_eq_iff take_bit_eq_mod code_def)

lemma eq_char_of_code: "c = char_of (n::nat) \<longleftrightarrow> n mod 256 = code c"
  using char_of_eq_code[of n c] by auto

lemma match_here_single:
  "match_here [a] s = (case counts a s of [] \<Rightarrow> None | k # ks \<Rightarrow> Some [k])"
  by (cases "counts a s") simp_all

lemma match_len_plus:
  "match_len [Atom P (Suc 0) None True] s =
     (if s \<noteq> [] \<and> P (hd s) then Some (length (takeWhile P s)) else None)"
  by (cases s) (simp_all add: match_len_def match_here_single counts_def reach_def)

lemma match_len_one:
  "match_len [Atom P (Suc 0) (Some (Suc 0)) True] s =
     (if s \<noteq> [] \<and> P (hd s) then Some 1 else None)"
  by (cases s) (simp_all add: match_len_def match_here_single counts_def reach_def)

lemma replace_all_class:
  "replace_all [Atom P (Suc 0) (Some (Suc 0)) True] [] s = filter (\<lambda>c. \<not> P c) s"
  by (induction s) (simp_all add: match_len_one)

lemma replace_all_spaces: "replace_all re_spaces ''-'' s = hyphenate s"
proof (induction s rule: hyphenate.induct)
  case 1
  show ?case by (simp add: re_spaces_def match_len_plus)
next
  case (2 c cs)
  then show ?case
    by (simp add: re_spaces_def match_len_plus dropWhile_eq_drop)
qed

lemma split_from_spaces_Cons:
  "split_from re_spaces tok (c # cs) =
     (if is_space c then tok # split_from re_spaces [] (dropWhile is_space cs)
      else split_from re_spaces (tok @ [c]) cs)"
  by (simp add: re_spaces_def match_len_plus dropWhile_eq_drop)

declare split_from.simps(2) [simp del]

lemma first_some_all_None: "(\<And>x. x \<in> set xs \<Longrightarrow> f x = None) \<Longrightarrow> first_some f xs = None"
  by (induction xs) simp_all

lemma first_some_None_iff: "first_some f xs = None \<longleftrightarrow> (\<forall>x\<in>set xs. f x = None)"
  by (induction xs) (auto split: option.splits)

lemma first_some_SomeD: "first_some f xs = Some y \<Longrightarrow> \<exists>x\<in>set xs. f x = Some y"
  by (induction xs) (auto split: option.splits)

lemma match_here_unit:
  "match_here (Atom P (Suc 0) (Some (Suc 0)) g # as) s =
     (case s of [] \<Rightarrow> None
      | c # cs \<Rightarrow> if P c then map_option ((#) 1) (match_here as cs) else None)"
  by (cases s) (simp_all add: counts_def reach_def split: option.splits)

declare match_here.simps(2) [simp del]

declare replace_all.simps(2) [simp del]

lemma show_nat_0: "show_nat 0 = ''0''"
  by (simp add: char_of_eq_code code_def)

declare show_nat.simps [simp del]

subsection \<open>Splitting at white space\<close>

lemma split_from_nonempty: "split_from re tok s \<noteq> []"
  by (induction re tok s rule: split_from.induct) (auto simp: split_from.simps(2) split: option.splits)

lemma js_split_spaces_Nil: "js_split re_spaces [] = [[]]"
  by (simp add: js_split_def re_spaces_def match_len_plus)

lemma js_split_spaces: "js_split re_spaces s = split_from re_spaces [] s"
  by (cases s) (simp_all add: js_split_def re_spaces_def match_len_plus)

lemma split_word:
  "list_all (\<lambda>c. \<not> is_space c) w \<Longrightarrow>
     split_from re_spaces tok (w @ s) = split_from re_spaces (tok @ w) s"
  by (induction w arbitrary: tok) (simp_all add: split_from_spaces_Cons)

lemma split_separator:
  "is_separator sep \<Longrightarrow> s = [] \<or> \<not> is_space (hd s) \<Longrightarrow>
     split_from re_spaces tok (sep @ s) = tok # split_from re_spaces [] s"
proof -
  assume sep: "is_separator sep" and s: "s = [] \<or> \<not> is_space (hd s)"
  from sep obtain c cs where c: "sep = c # cs" "is_space c" "list_all is_space cs"
    by (cases sep) (auto simp: is_separator_def)
  have "dropWhile is_space (cs @ s) = s"
    using c(3) s by (induction cs) (auto simp: dropWhile_eq_self_iff)
  then show ?thesis using c by (simp add: split_from_spaces_Cons)
qed

lemma split_text:
  "is_token w \<Longrightarrow> list_all (\<lambda>(sep, w'). is_separator sep \<and> is_token w') rest \<Longrightarrow>
     split_from re_spaces tok (text_of w rest) = (tok @ w) # map snd rest"
proof (induction w rest arbitrary: tok rule: text_of.induct)
  case (1 w)
  then show ?case using split_word[of w tok "[]"] by (simp add: is_token_def)
next
  case (2 w sep w' rest)
  from 2(2) have w: "list_all (\<lambda>c. \<not> is_space c) w" by (simp add: is_token_def)
  from 2(3) have sep: "is_separator sep" and w': "is_token w'"
    and rest: "list_all (\<lambda>(sep, w'). is_separator sep \<and> is_token w') rest" by auto
  have hd: "text_of w' rest = [] \<or> \<not> is_space (hd (text_of w' rest))"
    using w' by (cases rest; cases w') (auto simp: is_token_def)
  show ?case
    using split_word[OF w, of tok "sep @ text_of w' rest"]
      split_separator[OF sep hd, of "tok @ w"] "2.IH"[OF w' rest, of "[]"]
    by simp
qed

lemma split_leading:
  "is_separator sep \<Longrightarrow> t = [] \<or> \<not> is_space (hd t) \<Longrightarrow>
     js_split re_spaces (sep @ t) = [] # js_split re_spaces t"
  using split_separator[of sep t "[]"] by (simp add: js_split_spaces)

lemma split_trailing_from:
  "t = [] \<or> \<not> is_space (last t) \<Longrightarrow> is_separator sep \<Longrightarrow>
     split_from re_spaces tok (t @ sep) = split_from re_spaces tok t @ [[]]"
proof (induction "length t" arbitrary: t tok rule: less_induct)
  case less
  show ?case
  proof (cases t)
    case Nil
    then show ?thesis using split_separator[OF less.prems(2), of "[]" tok] by simp
  next
    case (Cons c cs)
    show ?thesis
    proof (cases "is_space c")
      case False
      have "cs = [] \<or> \<not> is_space (last cs)" using less.prems(1) Cons by (auto split: if_splits)
      then show ?thesis using False Cons less.hyps[of cs "tok @ [c]"] less.prems(2)
        by (simp add: split_from_spaces_Cons)
    next
      case True
      from less.prems(1) Cons True have ne: "cs \<noteq> []" and l: "\<not> is_space (last cs)"
        by (auto split: if_splits)
      then have ex: "last cs \<in> set cs" by simp
      have d: "dropWhile is_space (cs @ sep) = dropWhile is_space cs @ sep"
        using ex l by (metis dropWhile_append1)
      have dne: "dropWhile is_space cs \<noteq> []" using ex l by auto
      have l2: "\<not> is_space (last (dropWhile is_space cs))"
        using dne l by (metis last_appendR takeWhile_dropWhile_id)
      have "length (dropWhile is_space cs) < length t"
        using Cons length_dropWhile_le[of is_space cs] by simp
      from less.hyps[OF this, of "[]"] l2 less.prems(2)
      show ?thesis using True Cons d by (simp add: split_from_spaces_Cons)
    qed
  qed
qed

lemma split_trailing:
  "t = [] \<or> \<not> is_space (last t) \<Longrightarrow> is_separator sep \<Longrightarrow>
     js_split re_spaces (t @ sep) = js_split re_spaces t @ [[]]"
  using split_trailing_from[of t sep "[]"] by (simp add: js_split_spaces)

text \<open>The pieces that splitting at white space gives are the words of the text, with
  an empty piece in front when the text is empty or begins with white space, and an empty
  piece behind when it ends with white space.\<close>

lemma words_of_skip: "words_of (dropWhile is_space cs) = words_of cs"
  by (induction cs) simp_all

lemma last_after_spaces:
  "dropWhile is_space cs \<noteq> [] \<Longrightarrow> last (c # cs) = last (dropWhile is_space cs)"
  by (metis append_is_Nil_conv last_ConsR last_appendR takeWhile_dropWhile_id)

lemma last_all_spaces:
  "is_space c \<Longrightarrow> dropWhile is_space cs = [] \<Longrightarrow> is_space (last (c # cs))"
  by (metis dropWhile_eq_Nil_conv last_in_set set_ConsD last_ConsL last_ConsR)

lemma split_from_words:
  "split_from re_spaces tok s =
     (if s = [] \<or> is_space (hd s) then tok # words_of s @ back_piece s
      else (tok @ hd (words_of s)) # tl (words_of s) @ back_piece s)"
proof (induction "length s" arbitrary: s tok rule: less_induct)
  case less
  show ?case
  proof (cases s)
    case Nil
    then show ?thesis by (simp add: back_piece_def)
  next
    case (Cons c cs)
    show ?thesis
    proof (cases "is_space c")
      case True
      let ?r = "dropWhile is_space cs"
      have len: "length ?r < length s" using Cons length_dropWhile_le[of is_space cs] by simp
      have hdr: "?r = [] \<or> \<not> is_space (hd ?r)" using hd_dropWhile[of is_space cs] by blast
      have step: "split_from re_spaces tok s = tok # split_from re_spaces [] ?r"
        using Cons True by (simp add: split_from_spaces_Cons)
      have w: "words_of s = words_of ?r" using Cons True by (simp add: words_of_skip)
      show ?thesis
      proof (cases "?r = []")
        case r: True
        have "back_piece s = [[]]" using last_all_spaces[OF True r] Cons by (simp add: back_piece_def)
        moreover have "split_from re_spaces [] ?r = [[]]" unfolding r by simp
        moreover have "words_of s = []" using w unfolding r by simp
        ultimately show ?thesis using step Cons True by simp
      next
        case r: False
        have nsp: "\<not> is_space (hd ?r)" using hdr r by blast
        obtain d ds where d: "?r = d # ds" using r by (cases ?r) auto
        have wne: "words_of ?r \<noteq> []" using nsp unfolding d by simp
        have hdw: "hd (words_of ?r) # tl (words_of ?r) = words_of ?r" using wne by simp
        have bp: "back_piece s = back_piece ?r"
          using last_after_spaces[OF r, of c] Cons r by (simp add: back_piece_def)
        have "split_from re_spaces [] ?r = words_of ?r @ back_piece ?r"
          using less.hyps[OF len, of "[]"] r nsp hdw by (metis append_Cons append_Nil)
        then show ?thesis using step w bp Cons True by simp
      qed
    next
      case False
      have len: "length cs < length s" using Cons by simp
      have step: "split_from re_spaces tok s = split_from re_spaces (tok @ [c]) cs"
        using Cons False by (simp add: split_from_spaces_Cons)
      show ?thesis
      proof (cases cs)
        case Nil
        then show ?thesis using step Cons False by (simp add: back_piece_def)
      next
        case c2: (Cons d ds)
        have bp: "back_piece s = back_piece cs" using Cons c2 by (simp add: back_piece_def)
        show ?thesis
          using less.hyps[OF len, of "tok @ [c]"] step bp Cons c2 False by simp
      qed
    qed
  qed
qed

lemma split_spaces_words:
  "js_split re_spaces txt = front_piece txt @ words_of txt @ back_piece txt"
proof (cases "txt = [] \<or> is_space (hd txt)")
  case True
  then show ?thesis
    using split_from_words[of "[]" "txt"] by (simp add: js_split_spaces front_piece_def)
next
  case False
  then obtain c cs where c: "txt = c # cs" "\<not> is_space c" by (cases "txt") auto
  then have "words_of txt \<noteq> []" by simp
  then have "hd (words_of txt) # tl (words_of txt) = words_of txt" by simp
  then show ?thesis
    using False split_from_words[of "[]" "txt"]
    by (simp add: js_split_spaces front_piece_def)
qed

lemma ceiling_div_200: "\<lceil>real n / 200\<rceil> = int ((n + 199) div 200)"
proof -
  have "\<lceil>real n / 200\<rceil> = \<lceil>(of_int (int n) :: real) / of_int 200\<rceil>" by simp
  also have "\<dots> = - (- int n div 200)" by (rule ceiling_divide_eq_div)
  also have "\<dots> = int ((n + 199) div 200)" by linarith
  finally show ?thesis .
qed

lemma words_of_spaces: "list_all is_space ws \<Longrightarrow> words_of (ws @ t) = words_of t"
  by (induction ws) simp_all

lemma words_of_leading: "is_separator sep \<Longrightarrow> words_of (sep @ t) = words_of t"
  by (simp add: is_separator_def words_of_spaces)

lemma token_ends: "is_token w \<Longrightarrow> w \<noteq> [] \<and> \<not> is_space (hd w) \<and> \<not> is_space (last w)"
  by (auto simp: is_token_def list_all_iff)

lemma text_of_ends:
  "is_token w \<Longrightarrow> list_all (\<lambda>(sep, w'). is_separator sep \<and> is_token w') rest \<Longrightarrow>
     text_of w rest \<noteq> [] \<and> \<not> is_space (hd (text_of w rest)) \<and> \<not> is_space (last (text_of w rest))"
proof (induction w rest rule: text_of.induct)
  case (1 w)
  then show ?case using token_ends[of w] by simp
next
  case (2 w sep w' rest)
  then have "text_of w' rest \<noteq> [] \<and> \<not> is_space (last (text_of w' rest))" by simp
  moreover have "w \<noteq> [] \<and> \<not> is_space (hd w)" using token_ends[OF 2(2)] by simp
  ultimately show ?case by simp
qed

lemma words_of_text:
  "is_token w \<Longrightarrow> list_all (\<lambda>(sep, w'). is_separator sep \<and> is_token w') rest \<Longrightarrow>
     words_of (text_of w rest) = w # map snd rest"
  using split_text[of w rest "[]"] text_of_ends[of w rest]
    split_spaces_words[of "text_of w rest"]
  by (simp add: js_split_spaces front_piece_def back_piece_def)

lemma reading_time_words:
  "calculateReadingTime s = (word_count s + edge_pieces s + 199) div 200"
  by (simp add: calculateReadingTime_def split_spaces_words word_count_def edge_pieces_def)

lemma is_token_word: "is_token ''word''"
  by (simp add: is_token_def is_space_def code_def)

lemma sample_words:
  "is_separator sep \<Longrightarrow>
     list_all (\<lambda>(sep, w'). is_separator sep \<and> is_token w') (replicate n (sep, ''word''))"
  using is_token_word by (simp add: list_all_iff)

subsection \<open>The passes of the excerpt\<close>

lemma hashes_nth: "k < hashes s \<Longrightarrow> k < length s \<and> s ! k = CHR ''#''"
  unfolding hashes_def
  using length_takeWhile_le[of "\<lambda>d. d = CHR ''#''" s] nth_mem[of k "takeWhile (\<lambda>d. d = CHR ''#'') s"]
    takeWhile_nth[of k "\<lambda>d. d = CHR ''#''" s]
  by (auto dest: set_takeWhileD)

lemma not_space_hash: "\<not> is_space CHR ''#''"
  by (simp add: is_space_def code_def)

lemma match_here_heading:
  "match_here re_heading s = (if marker_here s then Some [hashes s, 1] else None)"
proof -
  let ?sp = "Atom is_space (Suc 0) (Some (Suc 0)) True"
  let ?f = "\<lambda>k. map_option ((#) k) (match_here [?sp] (drop k s))"
  have tail: "match_here [?sp] x = (if x \<noteq> [] \<and> is_space (hd x) then Some [1] else None)" for x
    by (cases x) (simp_all add: match_here_unit)
  have inside: "?f k = None" if "k < hashes s" for k
    using hashes_nth[OF that] not_space_hash by (simp add: tail hd_drop_conv_nth)
  have top: "?f (hashes s) =
      (if hashes s < length s \<and> is_space (s ! hashes s) then Some [hashes s, 1] else None)"
    using hd_drop_conv_nth[of "hashes s" s] by (auto simp: tail)
  have unfold: "match_here re_heading s = first_some ?f (rev [1..<Suc (min 6 (hashes s))])"
    by (simp add: re_heading_def counts_def reach_def hashes_def match_here.simps(2))
  show ?thesis
  proof (cases "1 \<le> hashes s \<and> hashes s \<le> 6")
    case True
    then have "min 6 (hashes s) = hashes s" by simp
    then have "rev [1..<Suc (min 6 (hashes s))] = hashes s # rev [1..<hashes s]"
      using True by simp
    moreover have "first_some ?f (rev [1..<hashes s]) = None"
      by (rule first_some_all_None) (use inside in auto)
    ultimately show ?thesis using True top unfold
      by (simp add: marker_here_def)
  next
    case False
    have "first_some ?f (rev [1..<Suc (min 6 (hashes s))]) = None"
      by (rule first_some_all_None) (use False inside in \<open>auto simp: min_def split: if_splits\<close>)
    moreover have "\<not> marker_here s" using False by (auto simp: marker_here_def)
    ultimately show ?thesis using unfold by simp
  qed
qed

lemma replace_all_heading: "replace_all re_heading [] s = strip_markers s"
proof (induction s rule: strip_markers.induct)
  case 1
  show ?case by (simp add: match_len_def match_here_heading marker_here_def)
next
  case (2 c cs)
  have "replace_all re_heading [] (c # cs) =
      (if marker_here (c # cs) then replace_all re_heading [] (drop (Suc (hashes (c # cs))) (c # cs))
       else c # replace_all re_heading [] cs)"
    by (subst replace_all.simps(2)) (simp add: match_len_def match_here_heading)
  then show ?case using 2 by simp
qed

lemma match_len_bold:
  "match_len re_bold s =
     (case s of a # b # cs \<Rightarrow> if a = CHR ''*'' \<and> b = CHR ''*'' then Some 2 else None
      | _ \<Rightarrow> None)"
  by (simp add: match_len_def re_bold_def lit_def match_here_unit split: list.splits)

lemma replace_all_bold: "replace_all re_bold [] s = strip_bold s"
proof (induction s rule: strip_bold.induct)
  case (1 a b cs)
  have "replace_all re_bold [] (a # b # cs) =
      (if a = CHR ''*'' \<and> b = CHR ''*'' then replace_all re_bold [] cs
       else a # replace_all re_bold [] (b # cs))"
    by (subst replace_all.simps(2)) (simp add: match_len_bold)
  then show ?case using 1 by simp
qed (simp_all add: match_len_bold replace_all.simps(2))

lemma replace_all_newline: "replace_all re_newline '' '' s = map newline_to_space s"
proof (induction s)
  case Nil
  show ?case by (simp add: match_len_def re_newline_def lit_def match_here_unit)
next
  case (Cons c cs)
  have "replace_all re_newline '' '' (c # cs) =
      (if c = CHR 0x0A then CHR '' '' # replace_all re_newline '' '' cs
       else c # replace_all re_newline '' '' cs)"
    by (subst replace_all.simps(2))
       (simp add: match_len_def re_newline_def lit_def match_here_unit)
  then show ?case using Cons by (simp add: newline_to_space_def)
qed

subsection \<open>The query pattern\<close>

lemma match_here_literal:
  "match_here (map lit_i p @ as) s =
     (if map canonicalize (take (length p) s) = map canonicalize p
      then map_option ((@) (replicate (length p) 1)) (match_here as (drop (length p) s))
      else None)"
proof (induction p arbitrary: s)
  case Nil
  show ?case by (cases "match_here as s") simp_all
next
  case (Cons c p)
  show ?case
  proof (cases s)
    case Nil
    then show ?thesis by (simp add: lit_i_def match_here_unit)
  next
    case (Cons d ds)
    then show ?thesis
      using Cons.IH[of ds]
      by (simp add: lit_i_def match_here_unit option.map_comp comp_def)
  qed
qed

lemma match_here_query:
  "match_here re_query s =
     (if phrase_here s
      then map_option ((@) (replicate 17 1))
             (match_here [Atom is_space 0 None True, Atom dot (Suc 0) None True] (drop 17 s))
      else None)"
proof -
  have len: "length ''Google Alert for:'' = 17" by simp
  show ?thesis unfolding re_query_def phrase_here_def match_here_literal len by simp
qed

lemma match_here_dots:
  "match_here [Atom dot (Suc 0) None True] x =
     (if x \<noteq> [] \<and> dot (hd x) then Some [length (takeWhile dot x)] else None)"
  by (cases x) (simp_all add: match_here_single counts_def reach_def)

lemma not_space_dot: "\<not> is_space c \<Longrightarrow> dot c"
  by (auto simp: dot_def is_line_terminator_def is_space_def)

lemma trim_spaces: "list_all is_space s \<Longrightarrow> trim s = []"
  by (auto simp: trim_def list_all_iff dest: set_dropWhileD)

text \<open>The rest of the query pattern, \<^verbatim>\<open>\s*(.+)\<close>, on the text after the phrase.\<close>

lemma match_here_rest:
  "case match_here [Atom is_space 0 None True, Atom dot (Suc 0) None True] r of
     None \<Rightarrow> list_all is_line_terminator r
   | Some ks \<Rightarrow> (\<exists>k n. ks = [k, n]
        \<and> trim (take n (drop k r)) = trim (takeWhile dot (dropWhile is_space r)))"
proof -
  let ?m = "length (takeWhile is_space r)"
  let ?f = "\<lambda>k. map_option ((#) k) (match_here [Atom dot (Suc 0) None True] (drop k r))"
  have unfold: "match_here [Atom is_space 0 None True, Atom dot (Suc 0) None True] r
      = first_some ?f (rev [0..<Suc ?m])"
    by (simp add: match_here.simps(2) counts_def reach_def)
  show ?thesis
  proof (cases "dropWhile is_space r = []")
    case False
    have d: "drop ?m r = dropWhile is_space r" by (simp add: dropWhile_eq_drop)
    have "dot (hd (dropWhile is_space r))"
      using hd_dropWhile[OF False] by (rule not_space_dot)
    then have "?f ?m = Some [?m, length (takeWhile dot (dropWhile is_space r))]"
      using False by (simp add: match_here_dots d)
    then have "first_some ?f (rev [0..<Suc ?m])
        = Some [?m, length (takeWhile dot (dropWhile is_space r))]"
      by simp
    moreover have "take (length (takeWhile dot (dropWhile is_space r))) (drop ?m r)
        = takeWhile dot (dropWhile is_space r)"
      unfolding d by (rule takeWhile_eq_take[symmetric])
    ultimately show ?thesis unfolding unfold by simp
  next
    case True
    then have sp: "list_all is_space r" by (simp add: list_all_iff)
    show ?thesis
    proof (cases "first_some ?f (rev [0..<Suc ?m])")
      case None
      have m: "?m = length r" using True by (simp add: takeWhile_eq_all_conv[THEN iffD2])
      have "is_line_terminator (r ! k)" if "k < length r" for k
      proof -
        from None have "\<forall>x\<in>set (rev [0..<Suc ?m]). ?f x = None"
          by (simp only: first_some_None_iff)
        then have "?f k = None" using that m by simp
        then show ?thesis using that
          by (simp add: match_here_dots hd_drop_conv_nth dot_def split: if_splits)
      qed
      then have "list_all is_line_terminator r" by (simp add: list_all_length)
      then show ?thesis unfolding unfold None by simp
    next
      case (Some ks)
      from first_some_SomeD[OF Some] obtain k where "?f k = Some ks" by blast
      then obtain n where ks: "ks = [k, n]"
        by (auto simp: match_here_dots split: if_splits)
      have "list_all is_space (take n (drop k r))"
        using sp by (auto simp: list_all_iff dest: in_set_takeD in_set_dropD)
      then have "trim (take n (drop k r)) = []" by (rule trim_spaces)
      moreover have "trim (takeWhile dot (dropWhile is_space r)) = []"
        unfolding True by (simp add: trim_def)
      ultimately show ?thesis unfolding unfold Some using ks by simp
    qed
  qed
qed

lemma canonicalize_line_terminator: "is_line_terminator d \<Longrightarrow> canonicalize d = d"
  by (auto simp: is_line_terminator_def canonicalize_def)

lemma phrase_no_line_terminator:
  "list_all (\<lambda>c. \<not> is_line_terminator (canonicalize c)) ''Google Alert for:''"
  by (simp add: is_line_terminator_def canonicalize_def code_def)

lemma map_eq_nth:
  "map f xs = map g ys \<Longrightarrow> i < length ys \<Longrightarrow> length xs = length ys \<and> f (xs ! i) = g (ys ! i)"
  by (metis length_map nth_map)

lemma phrase_here_dots:
  assumes "phrase_here y"
  shows "17 \<le> length y \<and> list_all dot (take 17 y)"
proof -
  define P where "P = ''Google Alert for:''"
  have lenP: "length P = 17" by (simp add: P_def)
  have noLT: "list_all (\<lambda>c. \<not> is_line_terminator (canonicalize c)) P"
    unfolding P_def by (rule phrase_no_line_terminator)
  from assms have eq: "map canonicalize (take 17 y) = map canonicalize P"
    by (simp add: phrase_here_def P_def)
  have "length (take 17 y) = length P"
    using map_eq_nth[OF eq, of 0] lenP by simp
  then have len: "17 \<le> length y" using lenP by simp
  have "dot (take 17 y ! i)" if i: "i < 17" for i
  proof (rule ccontr)
    assume "\<not> dot (take 17 y ! i)"
    then have lt: "is_line_terminator (take 17 y ! i)" by (simp add: dot_def)
    have "canonicalize (take 17 y ! i) = canonicalize (P ! i)"
      using map_eq_nth[OF eq, of i] i lenP by simp
    then have "take 17 y ! i = canonicalize (P ! i)"
      using canonicalize_line_terminator[OF lt] by simp
    moreover have "\<not> is_line_terminator (canonicalize (P ! i))"
      using noLT i lenP by (simp add: list_all_length)
    ultimately show False using lt by simp
  qed
  then show ?thesis using len by (simp add: list_all_length)
qed

lemma after_phrase_SomeD: "after_phrase y = Some r \<Longrightarrow> \<exists>j. phrase_here (drop j y)"
proof (induction y)
  case Nil
  then show ?case by simp
next
  case (Cons c cs)
  show ?case
  proof (cases "phrase_here (c # cs)")
    case True
    then show ?thesis by (intro exI[of _ 0]) simp
  next
    case False
    with Cons obtain j where "phrase_here (drop j cs)" by auto
    then show ?thesis by (intro exI[of _ "Suc j"]) simp
  qed
qed

lemma no_later_phrase:
  assumes "list_all is_line_terminator (drop 17 (c # cs))"
  shows "after_phrase cs = None"
proof (rule ccontr)
  assume "after_phrase cs \<noteq> None"
  then obtain r where "after_phrase cs = Some r" by auto
  from after_phrase_SomeD[OF this] obtain j where "phrase_here (drop j cs)" by blast
  from phrase_here_dots[OF this]
  have len: "17 \<le> length (drop j cs)" and dots: "list_all dot (take 17 (drop j cs))" by auto
  define i where "i = (if j < 16 then 16 - j else 0)"
  have i: "i < 17" unfolding i_def by (cases "j < 16") simp_all
  have "dot (take 17 (drop j cs) ! i)"
    using dots i len by (simp add: list_all_length)
  then have d: "dot (cs ! (j + i))" using i len by simp
  have ge: "16 \<le> j + i" unfolding i_def by (cases "j < 16") simp_all
  have lt: "j + i < length cs" using i len by simp
  have "drop 17 (c # cs) ! (j + i - 16) = cs ! (j + i)"
    using ge lt by simp
  moreover have "j + i - 16 < length (drop 17 (c # cs))" using ge lt by simp
  ultimately have "is_line_terminator (cs ! (j + i))"
    using assms unfolding list_all_length by metis
  then show False using d by (simp add: dot_def)
qed

lemma group_query:
  "group 18 (pre @ x) (length pre, replicate 17 1 @ [k, n]) = take n (drop k (drop 17 x))"
proof -
  have "(replicate 17 (1::nat) @ [k, n]) ! 18 = n" by (simp add: nth_append)
  moreover have "sum_list (take 18 (replicate 17 (1::nat) @ [k, n])) = 17 + k"
    by (simp add: sum_list_replicate)
  ultimately show ?thesis by (simp add: group_def add.commute)
qed

lemma search_query:
  "(case search_from re_query (length pre) x of None \<Rightarrow> []
    | Some m \<Rightarrow> trim (group 18 (pre @ x) m))
   = (case after_phrase x of None \<Rightarrow> []
      | Some rest \<Rightarrow> trim (takeWhile dot (dropWhile is_space rest)))"
proof (induction x arbitrary: pre)
  case Nil
  have "\<not> phrase_here []" by (simp add: phrase_here_def)
  then show ?case by (simp add: match_here_query)
next
  case (Cons c cs)
  let ?rest = "drop 17 (c # cs)"
  let ?tail = "match_here [Atom is_space 0 None True, Atom dot (Suc 0) None True] ?rest"
  have app: "(pre @ [c]) @ cs = pre @ c # cs" by simp
  note IH = Cons.IH[of "pre @ [c]", unfolded app]
  show ?case
  proof (cases "phrase_here (c # cs)")
    case False
    then show ?thesis using IH by (simp add: match_here_query)
  next
    case True
    show ?thesis
    proof (cases ?tail)
      case None
      then have lts: "list_all is_line_terminator ?rest"
        using match_here_rest[of ?rest] by simp
      then have "list_all is_space ?rest"
        by (auto simp: list_all_iff is_line_terminator_def is_space_def)
      then have d0: "dropWhile is_space ?rest = []" by (simp add: list_all_iff)
      have rhs: "trim (takeWhile dot (dropWhile is_space ?rest)) = []"
        unfolding d0 by (simp add: trim_def)
      have "after_phrase cs = None" by (rule no_later_phrase[OF lts])
      then show ?thesis using True None IH rhs by (simp add: match_here_query)
    next
      case (Some ks)
      then obtain k n where ks: "ks = [k, n]"
        and eq: "trim (take n (drop k ?rest)) = trim (takeWhile dot (dropWhile is_space ?rest))"
        using match_here_rest[of ?rest] by auto
      have "search_from re_query (length pre) (c # cs)
          = Some (length pre, replicate 17 1 @ [k, n])"
        using True Some ks by (simp add: match_here_query)
      then show ?thesis using True eq group_query[of pre "c # cs" k n] by simp
    qed
  qed
qed

lemma alertQuery_after_phrase:
  "alertQuery subj = (case after_phrase subj of None \<Rightarrow> []
      | Some rest \<Rightarrow> trim (takeWhile dot (dropWhile is_space rest)))"
  using search_query[of "[]" subj, unfolded append_Nil] by (simp add: alertQuery_def js_match_def)

section \<open>Logging and calling leave the rest of the state alone\<close>

lemma say_frame [simp]:
  "console (say l w) = console w @ [l]" "calls (say l w) = calls w" "errors (say l w) = errors w"
  by (simp_all add: say_def)

lemma called_frame [simp]:
  "console (called c w) = console w" "calls (called c w) = calls w @ [c]"
  "errors (called c w) = errors w"
  by (simp_all add: called_def)

lemma writer_say_frame [simp]:
  "ideas (say l w) = ideas w" "blog_posts (say l w) = blog_posts w" "written (say l w) = written w"
  by (simp_all add: say_def)

lemma writer_called_frame [simp]:
  "ideas (called c w) = ideas w" "blog_posts (called c w) = blog_posts w"
  "written (called c w) = written w"
  by (simp_all add: called_def)

lemma ingestor_say_frame [simp]:
  "seen (say l v) = seen v" "flag_calls (say l v) = flag_calls v"
  "content_ideas (say l v) = content_ideas v" "processed (say l v) = processed v"
  "skipped (say l v) = skipped v"
  by (simp_all add: say_def)

lemma ingestor_called_frame [simp]:
  "seen (called c v) = seen v" "flag_calls (called c v) = flag_calls v"
  "content_ideas (called c v) = content_ideas v" "processed (called c v) = processed v"
  "skipped (called c v) = skipped v"
  by (simp_all add: called_def)

section \<open>The steps of the ingestor\<close>

lemma markAsRead_frame:
  "skipped (snd (markAsRead env uid w)) = skipped w
   \<and> processed (snd (markAsRead env uid w)) = processed w
   \<and> errors (snd (markAsRead env uid w)) = errors w
   \<and> content_ideas (snd (markAsRead env uid w)) = content_ideas w
   \<and> console (snd (markAsRead env uid w)) = console w
   \<and> seen w \<subseteq> seen (snd (markAsRead env uid w))"
  by (auto simp: markAsRead_def called_def Let_def split: option.splits)

lemma markAsRead_cases:
  assumes "markAsRead env uid w = (r, w')"
  shows "(r = None \<longrightarrow> uid \<in> seen w') \<and> seen w \<subseteq> seen w'
    \<and> content_ideas w' = content_ideas w \<and> processed w' = processed w
    \<and> skipped w' = skipped w \<and> errors w' = errors w"
  using assms by (auto simp: markAsRead_def Let_def split: option.splits)

lemma saveContentIdea_cases:
  assumes "saveContentIdea env uid a idea w = (r, w')"
  shows "seen w' = seen w \<and> processed w' = processed w \<and> skipped w' = skipped w
    \<and> errors w' = errors w
    \<and> (case r of None \<Rightarrow> (\<exists>row. contentIdeaRow a idea = Inr row
                          \<and> content_ideas w' = content_ideas w @ [row])
        | Some e \<Rightarrow> content_ideas w' = content_ideas w)"
  using assms by (auto simp: saveContentIdea_def Let_def split: sum.splits option.splits)

lemma tryMessage_cases:
  assumes "tryMessage env uid e w = (r, w')"
  shows "seen w \<subseteq> seen w' \<and> length (content_ideas w') \<le> Suc (length (content_ideas w))
    \<and> (r = None \<longrightarrow> uid \<in> seen w') \<and> errors w' = errors w"
proof (cases "parseAlert e")
  case (Inl err)
  then show ?thesis using assms by (auto simp: tryMessage_def)
next
  case (Inr a)
  show ?thesis
  proof (cases "query a = []")
    case True
    then show ?thesis
      using assms Inr
        markAsRead_cases[of env uid "(say ''Skipped: not a Google Alert'' w)\<lparr>skipped := Suc (skipped w)\<rparr>" r w']
      by (auto simp: tryMessage_def)
  next
    case False
    let ?w1 = "called (CompleteIdea uid) (say (''Processing: '' @ query a) w)"
    show ?thesis
    proof (cases "idea_completion env uid")
      case (Inl err)
      then show ?thesis using assms Inr False by (auto simp: tryMessage_def Let_def)
    next
      case idea: (Inr idea)
      obtain r2 w2 where s: "saveContentIdea env uid a idea ?w1 = (r2, w2)" by fastforce
      note sc = saveContentIdea_cases[OF s]
      show ?thesis
      proof (cases r2)
        case (Some err)
        then show ?thesis using assms Inr False idea s sc by (auto simp: tryMessage_def Let_def)
      next
        case None
        obtain r3 w3 where m: "markAsRead env uid w2 = (r3, w3)" by fastforce
        note mc = markAsRead_cases[OF m]
        show ?thesis
          using assms Inr False idea s sc None m mc
          by (auto simp: tryMessage_def Let_def split: option.splits)
      qed
    qed
  qed
qed

lemma processMessage_cases:
  assumes "processMessage env uid w = (r, w')"
  shows "seen w \<subseteq> seen w' \<and> length (content_ideas w') \<le> Suc (length (content_ideas w))
    \<and> (r = None \<longrightarrow> uid \<in> seen w')"
proof (cases "fetch env uid")
  case (Inl err)
  then show ?thesis using assms by (auto simp: processMessage_def Let_def)
next
  case (Inr e)
  obtain r1 w1 where t: "tryMessage env uid e (called (MailFetch uid) w) = (r1, w1)" by fastforce
  note tc = tryMessage_cases[OF t]
  show ?thesis
  proof (cases r1)
    case None
    then show ?thesis using assms Inr t tc by (auto simp: processMessage_def Let_def)
  next
    case (Some err)
    let ?w2 = "(say (''Error processing email: '' @ message err) w1)\<lparr>errors := Suc (errors w1)\<rparr>"
    have "markAsRead env uid ?w2 = (r, w')"
      using assms Inr t Some by (simp add: processMessage_def Let_def)
    from markAsRead_cases[OF this] show ?thesis using tc by auto
  qed
qed

lemma processMessages_cases:
  assumes "processMessages env uids w = (r, w')"
  shows "seen w \<subseteq> seen w'
    \<and> length (content_ideas w') \<le> length (content_ideas w) + length uids
    \<and> (r = None \<longrightarrow> set uids \<subseteq> seen w')"
  using assms
proof (induction uids arbitrary: w)
  case Nil
  then show ?case by simp
next
  case (Cons uid uids)
  obtain r1 w1 where p: "processMessage env uid w = (r1, w1)" by fastforce
  note pc = processMessage_cases[OF p]
  show ?case
  proof (cases r1)
    case (Some err)
    then show ?thesis using Cons.prems p pc by auto
  next
    case None
    then have "processMessages env uids w1 = (r, w')" using Cons.prems p by simp
    from Cons.IH[OF this] show ?thesis using pc None by auto
  qed
qed

lemma search_frame [simp]:
  "search env (say l w) = search env w" "search env (called c w) = search env w"
  "search env (w\<lparr>errors := a, processed := b, skipped := d\<rparr>) = search env w"
  by (simp_all add: search_def)

lemma search_unseen: "u \<in> seen w \<Longrightarrow> u \<notin> set (search env w)"
  by (simp add: search_def)

lemma logout_frame:
  "seen (snd (logout env w)) = seen w \<and> content_ideas (snd (logout env w)) = content_ideas w"
  by (simp add: logout_def split: option.splits)

lemma automationError_frame:
  "seen (snd (automationError err w)) = seen w
   \<and> content_ideas (snd (automationError err w)) = content_ideas w
   \<and> fst (automationError err w) = Exited 1"
  by (simp add: automationError_def)

lemma runAutomation_cases:
  "seen w \<subseteq> seen (snd (runAutomation env w))
   \<and> length (content_ideas (snd (runAutomation env w)))
       \<le> length (content_ideas w) + length (search env w)
   \<and> (fst (runAutomation env w) = Returned \<longrightarrow>
        set (search env w) \<subseteq> seen (snd (runAutomation env w)))"
proof -
  let ?w0 = "(say ''Starting content automation...'' w)\<lparr>errors := 0, processed := 0, skipped := 0\<rparr>"
  let ?w3 = "called MailSearch (called MailOpen (say ''Connected to Gmail'' (called MailConnect ?w0)))"
  let ?msgs = "search env w"
  let ?w4 = "say (''Found '' @ show_nat (length ?msgs) @ '' unread Google Alerts'') ?w3"
  have s3: "search env ?w3 = ?msgs" by simp
  obtain r w5 where p: "processMessages env ?msgs ?w4 = (r, w5)" by fastforce
  note pc = processMessages_cases[OF p]
  have f4: "seen ?w4 = seen w" "content_ideas ?w4 = content_ideas w" by simp_all
  show ?thesis
  proof (cases "connect_error env = None \<and> open_error env = None \<and> search_error env = None")
    case False
    then show ?thesis
      by (auto simp: runAutomation_def Let_def automationError_def split: option.splits)
  next
    case True
    show ?thesis
    proof (cases "?msgs = []")
      case True
      then show ?thesis
        using \<open>connect_error env = None \<and> open_error env = None \<and> search_error env = None\<close>
          logout_frame[of env "say ''No new alerts to process'' ?w4"]
        by (simp add: runAutomation_def Let_def)
    next
      case False
      show ?thesis
      proof (cases r)
        case None
        let ?w6 = "say (CHR 0x0A # ''Summary: '' @ show_nat (processed w5)
                                            @ '' processed, '' @ show_nat (skipped w5)
                                            @ '' skipped, '' @ show_nat (errors w5)
                                            @ '' errors'') w5"
        have "runAutomation env w = logout env ?w6"
          using True False p None by (simp add: runAutomation_def Let_def)
        then show ?thesis using pc None f4 logout_frame[of env ?w6] by simp
      next
        case (Some err)
        have "runAutomation env w = automationError err w5"
          using True False p Some by (simp add: runAutomation_def Let_def)
        then show ?thesis using pc f4 automationError_frame[of err w5] by simp
      qed
    qed
  qed
qed

lemma later_runs_seen: "seen w \<subseteq> seen (later_runs envs w)"
proof (induction envs arbitrary: w)
  case Nil
  show ?case by simp
next
  case (Cons env envs)
  show ?case using Cons[of "snd (runAutomation env w)"] runAutomation_cases[of w env] by auto
qed

lemma processMessage_flags_ok:
  assumes "fetch env uid = Inr e" "\<forall>n. flag_error env n = None"
  shows "fst (processMessage env uid w) = None"
proof -
  have m: "fst (markAsRead env uid v) = None" for v
    using assms(2) by (simp add: markAsRead_def Let_def)
  obtain r1 w1 where t: "tryMessage env uid e (called (MailFetch uid) w) = (r1, w1)" by fastforce
  show ?thesis
    using assms(1) t m by (cases r1) (auto simp: processMessage_def Let_def)
qed

lemma processMessages_flags_ok:
  assumes "list_all (\<lambda>u. case fetch env u of Inr e \<Rightarrow> True | Inl err \<Rightarrow> False) uids"
    "\<forall>n. flag_error env n = None"
  shows "fst (processMessages env uids w) = None"
  using assms(1)
proof (induction uids arbitrary: w)
  case Nil
  show ?case by simp
next
  case (Cons uid uids)
  then obtain e where e: "fetch env uid = Inr e" by (auto split: sum.splits)
  obtain r1 w1 where p: "processMessage env uid w = (r1, w1)" by fastforce
  have "r1 = None" using processMessage_flags_ok[OF e assms(2), of w] p by simp
  then show ?case using p Cons by simp
qed

lemma runAutomation_returns:
  assumes "mail_works env"
  shows "fst (runAutomation env w) = Returned"
proof -
  let ?w0 = "(say ''Starting content automation...'' w)\<lparr>errors := 0, processed := 0, skipped := 0\<rparr>"
  let ?w3 = "called MailSearch (called MailOpen (say ''Connected to Gmail'' (called MailConnect ?w0)))"
  let ?msgs = "search env w"
  let ?w4 = "say (''Found '' @ show_nat (length ?msgs) @ '' unread Google Alerts'') ?w3"
  have "list_all (\<lambda>u. case fetch env u of Inr e \<Rightarrow> True | Inl err \<Rightarrow> False) ?msgs"
    using assms by (simp add: mail_works_def search_def list_all_iff)
  then have "fst (processMessages env ?msgs ?w4) = None"
    using assms by (intro processMessages_flags_ok) (simp_all add: mail_works_def)
  then obtain w5 where "processMessages env ?msgs ?w4 = (None, w5)"
    by (cases "processMessages env ?msgs ?w4") auto
  then show ?thesis
    using assms by (simp add: runAutomation_def Let_def mail_works_def logout_def)
qed

lemma generateSlug_automation_plain:
  "generateSlug_automation t = take 100 (hyphenate (filter slug_char (map lower_char t)))"
proof -
  have "replace_all re_not_slug_char [] s = filter slug_char s" for s
    using replace_all_class[of "\<lambda>c. \<not> (is_word c \<or> is_space c \<or> c = CHR ''-'')" s]
    by (simp add: re_not_slug_char_def slug_char_def[abs_def])
  then show ?thesis
    by (simp add: generateSlug_automation_def substring0_def replace_all_spaces toLowerCase_def)
qed

lemma contentIdeaRow_InrD:
  assumes "contentIdeaRow a idea = Inr row"
  shows "\<exists>ob t. idea = JObj ob \<and> get_field ob ''suggested_title'' = JStr t
    \<and> get_field row ''title'' = JStr (''Content Idea: '' @ title a)
    \<and> get_field row ''slug'' = JStr (generateSlug_automation t)
    \<and> get_field row ''source'' = JStr ''google_alerts''
    \<and> get_field row ''status'' = JStr ''pending''
    \<and> get_field row ''suggested_title'' = JStr t
    \<and> get_field row ''alert_query'' = JStr (query a)
    \<and> get_field row ''source_title'' = JStr (title a)"
proof (cases idea)
  case (JObj ob)
  show ?thesis
  proof (cases "get_field ob ''suggested_title''")
    case (JStr t)
    then have "row = [(''title'', JStr (''Content Idea: '' @ title a)),
                (''slug'', JStr (generateSlug_automation t)),
                (''source'', JStr ''google_alerts''),
                (''topic'', get_field ob ''topic''),
                (''urgency'', get_field ob ''urgency''),
                (''alert_query'', JStr (query a)),
                (''alert_date'', (case date a of None \<Rightarrow> JUndefined | Some d \<Rightarrow> JStr d)),
                (''original_url'', JStr (url a)),
                (''source_title'', JStr (title a)),
                (''source_snippet'', JStr (snippet a)),
                (''target_keywords'', get_field ob ''target_keywords''),
                (''target_audience'', get_field ob ''target_audience''),
                (''search_intent'', get_field ob ''search_intent''),
                (''suggested_title'', JStr t),
                (''suggested_outline'', get_field ob ''suggested_outline''),
                (''word_count_estimate'', get_field ob ''word_count_estimate''),
                (''seo_priority_score'', get_field ob ''seo_priority_score''),
                (''status'', JStr ''pending'')]"
      using assms JObj by (simp add: contentIdeaRow_def slugOf_def Let_def)
    then show ?thesis using JObj JStr by (simp add: get_field_def)
  qed (use assms JObj in \<open>simp_all add: contentIdeaRow_def slugOf_def\<close>)
qed (use assms in \<open>simp_all add: contentIdeaRow_def slugOf_def\<close>)

lemma tryMessage_processed:
  assumes "tryMessage env uid e w = (r, w')"
  shows "processed w' = processed w
    \<or> (r = None \<and> processed w' = Suc (processed w)
        \<and> (\<exists>a idea row. parseAlert e = Inr a \<and> query a \<noteq> []
              \<and> idea_completion env uid = Inr idea \<and> contentIdeaRow a idea = Inr row
              \<and> content_ideas w' = content_ideas w @ [row]))"
proof (cases "parseAlert e")
  case (Inl err)
  then show ?thesis using assms by (auto simp: tryMessage_def)
next
  case (Inr a)
  show ?thesis
  proof (cases "query a = []")
    case True
    then show ?thesis
      using assms Inr
        markAsRead_cases[of env uid "(say ''Skipped: not a Google Alert'' w)\<lparr>skipped := Suc (skipped w)\<rparr>" r w']
      by (auto simp: tryMessage_def)
  next
    case False
    let ?w1 = "called (CompleteIdea uid) (say (''Processing: '' @ query a) w)"
    show ?thesis
    proof (cases "idea_completion env uid")
      case (Inl err)
      then show ?thesis using assms Inr False by (auto simp: tryMessage_def Let_def)
    next
      case idea: (Inr idea)
      obtain r2 w2 where s: "saveContentIdea env uid a idea ?w1 = (r2, w2)" by fastforce
      note sc = saveContentIdea_cases[OF s]
      show ?thesis
      proof (cases r2)
        case (Some err)
        then show ?thesis using assms Inr False idea s sc by (auto simp: tryMessage_def Let_def)
      next
        case None
        obtain r3 w3 where m: "markAsRead env uid w2 = (r3, w3)" by fastforce
        note mc = markAsRead_cases[OF m]
        from sc None obtain row where row: "contentIdeaRow a idea = Inr row"
          "content_ideas w2 = content_ideas w @ [row]" by auto
        show ?thesis
        proof (cases r3)
          case (Some err)
          then show ?thesis
            using assms Inr False idea s sc None m mc by (auto simp: tryMessage_def Let_def)
        next
          case n3: None
          have "r = None" "processed w' = Suc (processed w)" "content_ideas w' = content_ideas w @ [row]"
            using assms Inr False idea s sc None m mc n3 row
            by (auto simp: tryMessage_def Let_def)
          then show ?thesis using Inr False idea row by blast
        qed
      qed
    qed
  qed
qed

lemma processMessage_processed:
  assumes "processMessage env uid w = (r, w')" "processed w' = Suc (processed w)"
  shows "r = None \<and> (\<exists>e a idea row. fetch env uid = Inr e \<and> parseAlert e = Inr a
      \<and> idea_completion env uid = Inr idea \<and> contentIdeaRow a idea = Inr row
      \<and> content_ideas w' = content_ideas w @ [row])"
proof (cases "fetch env uid")
  case (Inl err)
  then show ?thesis using assms by (auto simp: processMessage_def Let_def)
next
  case (Inr e)
  obtain r1 w1 where t: "tryMessage env uid e (called (MailFetch uid) w) = (r1, w1)" by fastforce
  note tp = tryMessage_processed[OF t]
  show ?thesis
  proof (cases r1)
    case None
    then have "w' = w1" "r = None" using assms(1) Inr t by (simp_all add: processMessage_def Let_def)
    then show ?thesis using tp assms(2) Inr by auto
  next
    case (Some err)
    let ?w2 = "(say (''Error processing email: '' @ message err) w1)\<lparr>errors := Suc (errors w1)\<rparr>"
    have "markAsRead env uid ?w2 = (r, w')"
      using assms(1) Inr t Some by (simp add: processMessage_def Let_def)
    from markAsRead_cases[OF this] have "processed w' = processed w1" by simp
    then show ?thesis using tp Some assms(2) by auto
  qed
qed

text \<open>A message that is fetched, parsed to an alert with a query, given an idea whose row is
  inserted, and marked read, is counted as processed.\<close>

lemma processMessage_saved:
  assumes "fetch env uid = Inr e" "parseAlert e = Inr a" "query a \<noteq> []"
    "idea_completion env uid = Inr idea" "contentIdeaRow a idea = Inr row"
    "idea_insert_error env uid = None" "flag_error env (flag_calls w) = None"
  shows "fst (processMessage env uid w) = None
    \<and> processed (snd (processMessage env uid w)) = Suc (processed w)
    \<and> content_ideas (snd (processMessage env uid w)) = content_ideas w @ [row]"
  using assms
  by (simp add: processMessage_def tryMessage_def saveContentIdea_def markAsRead_def Let_def)

lemma parseAlert_html_mail:
  "parseAlert html_alert_mail
     = Inr \<lparr>query = ''spa'', url = [], title = ''Day Spa'', snippet = [], date = None\<rparr>"
  by code_simp
section \<open>The steps of the writer\<close>

lemmas writer_steps =
  processIdea_def tryIdea_def generateBlogPost_def generateMetaDescription_def
  saveBlogPost_def markIdeaAsProcessed_def say_def called_def Let_def

lemma processIdea_failed:
  assumes "\<not> draft_saved env idea"
  shows "errors (processIdea env idea w) = Suc (errors w)
    \<and> written (processIdea env idea w) = written w
    \<and> ideas (processIdea env idea w) = ideas w
    \<and> blog_posts (processIdea env idea w) = blog_posts w"
  using assms
  by (auto simp: draft_saved_def writer_steps split: sum.splits option.splits)

lemma processIdea_failed_log:
  assumes "\<not> draft_saved env idea"
  shows "\<exists>e. last (console (processIdea env idea w))
          = ''Error processing idea '' @ show_nat (idea_id idea) @ '': '' @ message e"
proof (cases "tryIdea env idea w")
  case (Pair r w1)
  have "r \<noteq> None"
    using assms Pair
    by (auto simp: draft_saved_def writer_steps split: sum.splits option.splits)
  then obtain e where "r = Some e" by auto
  then show ?thesis using Pair by (auto simp: processIdea_def say_def)
qed

lemma processIdea_saved:
  assumes "draft_saved env idea"
  shows "errors (processIdea env idea w) = errors w
    \<and> written (processIdea env idea w) = Suc (written w)
    \<and> length (blog_posts (processIdea env idea w)) = Suc (length (blog_posts w))
    \<and> ideas (processIdea env idea w)
        = (if idea_update_error env (idea_id idea) = None
           then mark_processed {idea_id idea} (ideas w) else ideas w)"
  using assms
  by (auto simp: draft_saved_def mark_processed_def writer_steps split: sum.splits option.splits)

lemma processIdea_update_failed_log:
  assumes "draft_saved env idea" "idea_update_error env (idea_id idea) = Some m"
  shows "''Error updating idea status: '' @ m \<in> set (console (processIdea env idea w))"
  using assms
  by (auto simp: draft_saved_def writer_steps split: sum.splits option.splits)

lemma mark_processed_empty: "mark_processed {} rows = rows"
  by (simp add: mark_processed_def)

lemma mark_processed_twice:
  "mark_processed S (mark_processed T rows) = mark_processed (S \<union> T) rows"
  by (auto simp: mark_processed_def)

lemma processIdeas_result:
  "errors (processIdeas env batch w)
      = errors w + length (filter (\<lambda>i. \<not> draft_saved env i) batch)
   \<and> written (processIdeas env batch w) = written w + length (filter (draft_saved env) batch)
   \<and> length (blog_posts (processIdeas env batch w))
      = length (blog_posts w) + length (filter (draft_saved env) batch)
   \<and> ideas (processIdeas env batch w)
      = mark_processed (idea_id ` {i \<in> set batch. status_updated env i}) (ideas w)"
proof (induction batch arbitrary: w)
  case Nil
  show ?case by (simp add: mark_processed_empty)
next
  case (Cons idea rest)
  note IH = Cons.IH[of "processIdea env idea w"]
  show ?case
  proof (cases "draft_saved env idea")
    case False
    then have "{i \<in> set (idea # rest). status_updated env i} = {i \<in> set rest. status_updated env i}"
      by (auto simp: status_updated_def)
    then show ?thesis using False IH processIdea_failed[OF False, of w] by simp
  next
    case True
    show ?thesis
    proof (cases "idea_update_error env (idea_id idea) = None")
      case upd: True
      from upd \<open>draft_saved env idea\<close> have "{i \<in> set (idea # rest). status_updated env i}
          = insert idea {i \<in> set rest. status_updated env i}"
        by (auto simp: status_updated_def)
      then show ?thesis
        using \<open>draft_saved env idea\<close> upd IH processIdea_saved[OF \<open>draft_saved env idea\<close>, of w]
        by (simp add: mark_processed_twice)
    next
      case False
      with \<open>draft_saved env idea\<close> have "{i \<in> set (idea # rest). status_updated env i}
          = {i \<in> set rest. status_updated env i}"
        by (auto simp: status_updated_def)
      then show ?thesis
        using \<open>draft_saved env idea\<close> False IH processIdea_saved[OF \<open>draft_saved env idea\<close>, of w]
        by auto
    qed
  qed
qed

lemma selectPending_set: "set (selectPending rows) \<subseteq> {r \<in> set rows. pending r}"
  by (auto simp: selectPending_def pending_def dest: in_set_takeD)

lemma selectPending_length:
  "length (selectPending rows) = min 3 (length (filter pending rows))"
  by (simp add: selectPending_def POSTS_PER_DAY_def pending_def[abs_def])

lemma sorted_desc_sort_key:
  "sorted_wrt (\<lambda>a b. seo_priority_score b \<le> seo_priority_score a)
     (sort_key (\<lambda>r. - seo_priority_score r) xs)"
  using sorted_sort_key[of "\<lambda>r. - seo_priority_score r" xs] by (simp add: sorted_map)

lemma selectPending_sorted:
  "sorted_wrt (\<lambda>a b. seo_priority_score b \<le> seo_priority_score a) (selectPending rows)"
  unfolding selectPending_def by (rule sorted_wrt_take[OF sorted_desc_sort_key])

lemma selectPending_top:
  assumes "r \<in> set rows" "pending r" "r \<notin> set (selectPending rows)" "s \<in> set (selectPending rows)"
  shows "seo_priority_score r \<le> seo_priority_score s"
proof -
  let ?srt = "sort_key (\<lambda>r. - seo_priority_score r) (filter (\<lambda>r. status r = ''pending'') rows)"
  have "sorted_wrt (\<lambda>a b. seo_priority_score b \<le> seo_priority_score a)
      (take POSTS_PER_DAY ?srt @ drop POSTS_PER_DAY ?srt)"
    using sorted_desc_sort_key by simp
  then have top: "\<forall>x\<in>set (take POSTS_PER_DAY ?srt). \<forall>y\<in>set (drop POSTS_PER_DAY ?srt).
      seo_priority_score y \<le> seo_priority_score x"
    unfolding sorted_wrt_append by blast
  have "r \<in> set ?srt" using assms(1,2) by (simp add: pending_def)
  then have "r \<in> set (take POSTS_PER_DAY ?srt @ drop POSTS_PER_DAY ?srt)"
    by (simp only: append_take_drop_id)
  then have "r \<in> set (take POSTS_PER_DAY ?srt) \<union> set (drop POSTS_PER_DAY ?srt)"
    by (simp only: set_append)
  then have "r \<in> set (drop POSTS_PER_DAY ?srt)"
    using assms(3) by (simp add: selectPending_def)
  then show ?thesis using top assms(4) by (simp add: selectPending_def)
qed

lemma selectPending_distinct:
  "distinct (map idea_id rows) \<Longrightarrow> distinct (map idea_id (selectPending rows))"
proof -
  assume d: "distinct (map idea_id rows)"
  have "distinct (map idea_id (filter (\<lambda>r. status r = ''pending'') rows))"
    using d by (rule distinct_map_filter)
  then have "distinct (map idea_id (sort_key (\<lambda>r. - seo_priority_score r)
      (filter (\<lambda>r. status r = ''pending'') rows)))"
    by (simp add: distinct_map)
  then show ?thesis unfolding selectPending_def take_map[symmetric] by (rule distinct_take)
qed

lemma run_select_failed:
  assumes "select_error env = Some m"
  shows "run env w = (Returned, w\<lparr>console := console w @
            [''Starting blog post generation...'', ''Error fetching ideas: '' @ m,
             ''Found 0 pending ideas'', ''No pending ideas to process''],
          calls := calls w @ [StoreSelectPending]\<rparr>)"
  using assms
  by (simp add: run_def getPendingIdeas_def storeSelect_def say_def called_def show_nat_0 Let_def)

lemma run_nothing_pending:
  assumes "select_error env = None" "selectPending (ideas w) = []"
  shows "run env w = (Returned, w\<lparr>console := console w @
            [''Starting blog post generation...'', ''Found 0 pending ideas'',
             ''No pending ideas to process''],
          calls := calls w @ [StoreSelectPending]\<rparr>)"
  using assms
  by (simp add: run_def getPendingIdeas_def storeSelect_def say_def called_def show_nat_0 Let_def)

lemma run_batch:
  assumes "select_error env = None" "selectPending (ideas w) \<noteq> []"
  shows "run env w =
     (let w1 = processIdeas env (selectPending (ideas w))
                 (batch_start w (length (selectPending (ideas w))))
      in (Returned, say (CHR 0x0A # ''Summary: '' @ show_nat (written w1)
                          @ '' posts written, '' @ show_nat (errors w1) @ '' errors'') w1))"
  using assms
  by (simp add: run_def getPendingIdeas_def storeSelect_def Let_def batch_start_def)

lemma batch_start_frame:
  "ideas (batch_start w n) = ideas w \<and> blog_posts (batch_start w n) = blog_posts w
   \<and> errors (batch_start w n) = 0 \<and> written (batch_start w n) = 0"
  by (simp add: batch_start_def)

lemma run_result:
  assumes sel: "select_error env = None"
  shows "fst (run env w) = Returned
    \<and> ideas (snd (run env w))
        = mark_processed (idea_id ` {i \<in> set (selectPending (ideas w)). status_updated env i}) (ideas w)
    \<and> (selectPending (ideas w) \<noteq> [] \<longrightarrow>
        errors (snd (run env w))
          = length (filter (\<lambda>i. \<not> draft_saved env i) (selectPending (ideas w)))
        \<and> written (snd (run env w))
          = length (filter (draft_saved env) (selectPending (ideas w))))
    \<and> length (blog_posts (snd (run env w)))
        = length (blog_posts w) + length (filter (draft_saved env) (selectPending (ideas w)))"
proof (cases "selectPending (ideas w) = []")
  case True
  then show ?thesis using run_nothing_pending[OF sel True] by (simp add: mark_processed_empty)
next
  case False
  show ?thesis
    using False batch_start_frame[of w "length (selectPending (ideas w))"]
      processIdeas_result[of env "selectPending (ideas w)"
        "batch_start w (length (selectPending (ideas w)))"]
    unfolding run_batch[OF sel False]
    by (simp add: Let_def)
qed

lemma pending_after_mark:
  assumes d: "distinct (map idea_id rows)" and sub: "set sel \<subseteq> {r \<in> set rows. pending r}"
    and ds: "distinct sel"
  shows "length (filter pending (mark_processed (idea_id ` set sel) rows))
           = length (filter pending rows) - length sel"
proof -
  let ?S = "idea_id ` set sel"
  have inj: "inj_on idea_id (set rows)" and dr: "distinct rows"
    using d by (simp_all add: distinct_map)
  have pm: "pending (if idea_id r \<in> ?S then r\<lparr>status := ''processed''\<rparr> else r)
      \<longleftrightarrow> pending r \<and> idea_id r \<notin> ?S" for r
    by (simp add: pending_def)
  have a: "length (filter pending (mark_processed ?S rows))
      = length (filter (\<lambda>r. idea_id r \<notin> ?S) (filter pending rows))"
    unfolding mark_processed_def filter_map length_map comp_def pm
    by (simp add: conj_commute)
  have "{r \<in> set (filter pending rows). idea_id r \<in> ?S} = set sel"
  proof (intro set_eqI iffI)
    fix r assume "r \<in> {r \<in> set (filter pending rows). idea_id r \<in> ?S}"
    then obtain s where "r \<in> set rows" "s \<in> set sel" "idea_id r = idea_id s" by auto
    then show "r \<in> set sel" using inj sub by (auto dest: inj_onD)
  next
    fix r assume "r \<in> set sel"
    then show "r \<in> {r \<in> set (filter pending rows). idea_id r \<in> ?S}" using sub by auto
  qed
  then have "length (filter (\<lambda>r. idea_id r \<in> ?S) (filter pending rows)) = card (set sel)"
    using dr distinct_length_filter[of "filter pending rows" "\<lambda>r. idea_id r \<in> ?S"]
    by (simp add: Int_def conj_commute)
  then have b: "length (filter (\<lambda>r. idea_id r \<in> ?S) (filter pending rows)) = length sel"
    using ds by (simp add: distinct_card)
  have "length (filter (\<lambda>r. idea_id r \<in> ?S) (filter pending rows))
      + length (filter (\<lambda>r. \<not> idea_id r \<in> ?S) (filter pending rows))
      = length (filter pending rows)"
    by (rule sum_length_filter_compl)
  then show ?thesis using a b by simp
qed

lemma length_filter_only:
  "distinct xs \<Longrightarrow> x \<in> set xs \<Longrightarrow> (\<And>y. y \<in> set xs \<Longrightarrow> P y \<longleftrightarrow> y = x) \<Longrightarrow>
     length (filter P xs) = 1"
proof (induction xs)
  case Nil
  then show ?case by simp
next
  case (Cons a xs)
  show ?case
  proof (cases "a = x")
    case True
    then have "filter P xs = []" using Cons.prems by (auto simp: filter_empty_conv)
    then show ?thesis using True Cons.prems by simp
  next
    case False
    then show ?thesis using Cons by auto
  qed
qed

lemma one_failure_of_batch:
  assumes sel: "select_error env = None"
    and d: "distinct (map idea_id (ideas w))"
    and bad: "bad \<in> set (selectPending (ideas w))" "\<not> draft_saved env bad"
    and ok: "\<forall>i\<in>set (selectPending (ideas w)). i \<noteq> bad \<longrightarrow> status_updated env i"
  shows "errors (snd (run env w)) = 1"
    and "written (snd (run env w)) = length (selectPending (ideas w)) - 1"
    and "ideas (snd (run env w))
          = mark_processed (idea_id ` (set (selectPending (ideas w)) - {bad})) (ideas w)"
    and "\<forall>r\<in>set (ideas (snd (run env w))).
           (idea_id r = idea_id bad \<longrightarrow> r = bad \<and> status r = ''pending'')
           \<and> (idea_id r \<in> idea_id ` (set (selectPending (ideas w)) - {bad})
                \<longrightarrow> status r = ''processed'')"
proof -
  let ?sel = "selectPending (ideas w)"
  have ne: "?sel \<noteq> []" using bad(1) by auto
  have ds: "distinct ?sel" using selectPending_distinct[OF d] by (simp add: distinct_map)
  have inj: "inj_on idea_id (set (ideas w))" using d by (simp add: distinct_map)
  have sub: "set ?sel \<subseteq> {r \<in> set (ideas w). pending r}" by (rule selectPending_set)
  have P: "(\<not> draft_saved env y) \<longleftrightarrow> y = bad" if "y \<in> set ?sel" for y
    using that bad(2) ok by (auto simp: status_updated_def)
  have one: "length (filter (\<lambda>i. \<not> draft_saved env i) ?sel) = 1"
    by (rule length_filter_only[OF ds bad(1)]) (rule P)
  have "length (filter (\<lambda>i. \<not> draft_saved env i) ?sel) + length (filter (draft_saved env) ?sel)
      = length ?sel"
    using sum_length_filter_compl[of "\<lambda>i. \<not> draft_saved env i" ?sel] by simp
  then have rest: "length (filter (draft_saved env) ?sel) = length ?sel - 1" using one by simp
  have upd: "{i \<in> set ?sel. status_updated env i} = set ?sel - {bad}"
    using bad(2) ok by (auto simp: status_updated_def)
  note r = run_result[OF sel, of w, unfolded upd]
  show e: "errors (snd (run env w)) = 1" using r ne one by simp
  show "written (snd (run env w)) = length ?sel - 1" using r ne rest by simp
  show i: "ideas (snd (run env w)) = mark_processed (idea_id ` (set ?sel - {bad})) (ideas w)"
    using r by simp
  have badrow: "bad \<in> set (ideas w)" "status bad = ''pending''"
    using sub bad(1) by (auto simp: pending_def)
  have notin: "idea_id bad \<notin> idea_id ` (set ?sel - {bad})"
  proof
    assume "idea_id bad \<in> idea_id ` (set ?sel - {bad})"
    then obtain s where s: "s \<in> set ?sel - {bad}" "idea_id bad = idea_id s"
      by (rule imageE)
    then have "s \<in> set ?sel" "s \<noteq> bad" "idea_id s = idea_id bad" by simp_all
    then show False using inj sub badrow(1) by (auto dest: inj_onD)
  qed
  show "\<forall>r\<in>set (ideas (snd (run env w))).
           (idea_id r = idea_id bad \<longrightarrow> r = bad \<and> status r = ''pending'')
           \<and> (idea_id r \<in> idea_id ` (set ?sel - {bad}) \<longrightarrow> status r = ''processed'')"
  proof
    fix r
    define f :: "content_idea \<Rightarrow> content_idea" where "f = (\<lambda>r0. if idea_id r0 \<in> idea_id ` (set ?sel - {bad})
        then r0\<lparr>status := ''processed''\<rparr> else r0)"
    assume "r \<in> set (ideas (snd (run env w)))"
    then have "r \<in> f ` set (ideas w)"
      unfolding i mark_processed_def f_def by simp
    then obtain r0 where "r0 \<in> set (ideas w)" "r = f r0" by blast
    then have r0: "r0 \<in> set (ideas w)"
      "r = (if idea_id r0 \<in> idea_id ` (set ?sel - {bad}) then r0\<lparr>status := ''processed''\<rparr> else r0)"
      unfolding f_def by simp_all
    have same: "idea_id r = idea_id r0" using r0(2) by simp
    show "(idea_id r = idea_id bad \<longrightarrow> r = bad \<and> status r = ''pending'')
           \<and> (idea_id r \<in> idea_id ` (set ?sel - {bad}) \<longrightarrow> status r = ''processed'')"
    proof (rule conjI; rule impI)
      assume "idea_id r = idea_id bad"
      then have "r0 = bad" using same inj r0(1) badrow(1) by (auto dest: inj_onD)
      then show "r = bad \<and> status r = ''pending''" using r0(2) notin badrow(2) by simp
    next
      assume "idea_id r \<in> idea_id ` (set ?sel - {bad})"
      then show "status r = ''processed''" using r0(2) same by simp
    qed
  qed
qed

section \<open>The slug of a sample title\<close>

text \<open>
  Claim C5, as stated: \<^verbatim>\<open>slugify("Hello, World! Foo_Bar", 80)\<close> is
  \<^verbatim>\<open>"hello-world-foobar"\<close>. On the code it is not: the comma and the exclamation mark
  are removed, but the underscore is a word character and stays.
\<close>

theorem C5_slug_sample_counterexample:
  "generateSlug ''Hello, World! Foo_Bar'' \<noteq> ''hello-world-foobar''"
  by code_simp

text \<open>
  Claim C5, amended: with the limit 80 of the Post Writer, and with the limit 100 of the
  Alert Ingestor, the slug of \<^verbatim>\<open>"Hello, World! Foo_Bar"\<close> is \<^verbatim>\<open>"hello-world-foo_bar"\<close>:
  comma and exclamation mark removed, underscore kept, white space turned into hyphens.
\<close>

theorem C5_slug_sample:
  "generateSlug ''Hello, World! Foo_Bar'' = ''hello-world-foo_bar''
   \<and> generateSlug_automation ''Hello, World! Foo_Bar'' = ''hello-world-foo_bar''"
  by code_simp

section \<open>Reading time\<close>

text \<open>
  Claim C8, as stated: the reading time of a text is the ceiling of its word count
  divided by 200, so that a body of 200 words has reading time 1. On the code a body of
  200 words that begins with a space has reading time 2: the empty piece in front of the
  first word is counted with the words. Likewise the empty text, of no word, has reading
  time 1.
\<close>

theorem C8_reading_time_counterexample:
  "word_count ('' '' @ text_of ''word'' (replicate 199 ('' '', ''word''))) = 200
   \<and> calculateReadingTime ('' '' @ text_of ''word'' (replicate 199 ('' '', ''word''))) = 2
   \<and> int (calculateReadingTime ('' '' @ text_of ''word'' (replicate 199 ('' '', ''word''))))
       \<noteq> \<lceil>real (word_count ('' '' @ text_of ''word'' (replicate 199 ('' '', ''word'')))) / 200\<rceil>
   \<and> word_count [] = 0 \<and> calculateReadingTime [] = 1"
proof -
  let ?t = "text_of ''word'' (replicate 199 ('' '', ''word''))"
  have sep: "is_separator '' ''" by (simp add: is_separator_def is_space_def code_def)
  have w: "words_of ?t = ''word'' # map snd (replicate 199 ('' '', ''word''))"
    by (rule words_of_text[OF is_token_word sample_words[OF sep]])
  have wc: "word_count ('' '' @ ?t) = 200"
    unfolding word_count_def words_of_leading[OF sep] w by simp
  have hd: "?t = [] \<or> \<not> is_space (hd ?t)"
    using text_of_ends[OF is_token_word sample_words[OF sep], of 199] by blast
  have "js_split re_spaces ('' '' @ ?t) = [] # js_split re_spaces ?t"
    by (rule split_leading[OF sep hd])
  also have "js_split re_spaces ?t = ''word'' # map snd (replicate 199 ('' '', ''word''))"
    using split_text[OF is_token_word sample_words[OF sep], of "[]" 199]
    by (simp add: js_split_spaces)
  finally have n: "length (js_split re_spaces ('' '' @ ?t)) = 201" by simp
  have rt: "calculateReadingTime ('' '' @ ?t) = 2"
    unfolding calculateReadingTime_def n by simp
  have e: "word_count [] = 0" "calculateReadingTime [] = 1"
    by (simp_all add: word_count_def calculateReadingTime_def js_split_spaces_Nil)
  show ?thesis unfolding wc rt using e by simp
qed

text \<open>
  Claim C8, amended: the pieces that are counted are the words of the text, with one
  empty piece more when the text is empty or begins with white space, and one more when
  it ends with white space; the reading time is the ceiling of that count divided by
  200. For a body that is not empty and neither begins nor ends with white space the
  count is the word count: a body of 400 words has reading time 2, a body of 201 words
  has reading time 2 and a body of 200 words has reading time 1. A body of 200 words
  that begins or ends with white space has reading time 2.
\<close>

theorem C8_reading_time:
  "js_split re_spaces body = front_piece body @ words_of body @ back_piece body
   \<and> int (calculateReadingTime body) = \<lceil>real (word_count body + edge_pieces body) / 200\<rceil>
   \<and> (body \<noteq> [] \<and> \<not> is_space (hd body) \<and> \<not> is_space (last body) \<longrightarrow>
        int (calculateReadingTime body) = \<lceil>real (word_count body) / 200\<rceil>
        \<and> (word_count body = 400 \<longrightarrow> calculateReadingTime body = 2)
        \<and> (word_count body = 201 \<longrightarrow> calculateReadingTime body = 2)
        \<and> (word_count body = 200 \<longrightarrow> calculateReadingTime body = 1))
   \<and> (body \<noteq> [] \<and> (is_space (hd body) \<or> is_space (last body)) \<and> word_count body = 200 \<longrightarrow>
        calculateReadingTime body = 2)"
proof -
  have rt: "calculateReadingTime body = (word_count body + edge_pieces body + 199) div 200"
    by (rule reading_time_words)
  have ceil: "int (calculateReadingTime body) = \<lceil>real (word_count body + edge_pieces body) / 200\<rceil>"
    unfolding rt ceiling_div_200 by simp
  have trimmed: "edge_pieces body = 0"
    if "body \<noteq> [] \<and> \<not> is_space (hd body) \<and> \<not> is_space (last body)"
    using that by (simp add: edge_pieces_def front_piece_def back_piece_def)
  have edge: "edge_pieces body = 1 \<or> edge_pieces body = 2"
    if "body \<noteq> [] \<and> (is_space (hd body) \<or> is_space (last body))"
    using that by (auto simp: edge_pieces_def front_piece_def back_piece_def)
  have a: "body \<noteq> [] \<and> \<not> is_space (hd body) \<and> \<not> is_space (last body) \<longrightarrow>
        int (calculateReadingTime body) = \<lceil>real (word_count body) / 200\<rceil>
        \<and> (word_count body = 400 \<longrightarrow> calculateReadingTime body = 2)
        \<and> (word_count body = 201 \<longrightarrow> calculateReadingTime body = 2)
        \<and> (word_count body = 200 \<longrightarrow> calculateReadingTime body = 1)"
  proof
    assume h: "body \<noteq> [] \<and> \<not> is_space (hd body) \<and> \<not> is_space (last body)"
    show "int (calculateReadingTime body) = \<lceil>real (word_count body) / 200\<rceil>
        \<and> (word_count body = 400 \<longrightarrow> calculateReadingTime body = 2)
        \<and> (word_count body = 201 \<longrightarrow> calculateReadingTime body = 2)
        \<and> (word_count body = 200 \<longrightarrow> calculateReadingTime body = 1)"
      using ceil rt unfolding trimmed[OF h] by simp
  qed
  have b: "body \<noteq> [] \<and> (is_space (hd body) \<or> is_space (last body)) \<and> word_count body = 200 \<longrightarrow>
        calculateReadingTime body = 2"
  proof
    assume h: "body \<noteq> [] \<and> (is_space (hd body) \<or> is_space (last body)) \<and> word_count body = 200"
    then have "edge_pieces body = 1 \<or> edge_pieces body = 2" using edge by blast
    then show "calculateReadingTime body = 2" using h rt by auto
  qed
  show ?thesis using split_spaces_words[of body] ceil a b by blast
qed

text \<open>Bodies of 400, 201 and 200 words, a body of 200 words that ends with a newline,
  and the pieces of a text of two words that begins with a space.\<close>

theorem C8_reading_time_witness:
  "calculateReadingTime (text_of ''word'' (replicate 399 ('' '', ''word''))) = 2
   \<and> calculateReadingTime (text_of ''word'' (replicate 200 ([CHR 0x0A], ''word''))) = 2
   \<and> calculateReadingTime (text_of ''word'' (replicate 199 (''  '', ''word''))) = 1
   \<and> calculateReadingTime (text_of ''word'' (replicate 199 (''  '', ''word'')) @ [CHR 0x0A]) = 2
   \<and> js_split re_spaces '' two words'' = [[], ''two'', ''words'']"
proof -
  have sep: "is_separator '' ''" "is_separator [CHR 0x0A]" "is_separator ''  ''"
    by (simp_all add: is_separator_def is_space_def code_def)
  have wc: "word_count (text_of ''word'' (replicate n (s, ''word''))) = Suc n"
    if "is_separator s" for n s
    unfolding word_count_def words_of_text[OF is_token_word sample_words[OF that]] by simp
  have ends: "text_of ''word'' (replicate n (s, ''word'')) \<noteq> []
      \<and> \<not> is_space (hd (text_of ''word'' (replicate n (s, ''word''))))
      \<and> \<not> is_space (last (text_of ''word'' (replicate n (s, ''word''))))"
    if "is_separator s" for n s
    by (rule text_of_ends[OF is_token_word sample_words[OF that]])
  have c1: "calculateReadingTime (text_of ''word'' (replicate 399 ('' '', ''word''))) = 2"
    using C8_reading_time[of "text_of ''word'' (replicate 399 ('' '', ''word''))"]
      ends[OF sep(1), of 399] wc[OF sep(1), of 399] by simp
  have c2: "calculateReadingTime (text_of ''word'' (replicate 200 ([CHR 0x0A], ''word''))) = 2"
    using C8_reading_time[of "text_of ''word'' (replicate 200 ([CHR 0x0A], ''word''))"]
      ends[OF sep(2), of 200] wc[OF sep(2), of 200] by simp
  have c3: "calculateReadingTime (text_of ''word'' (replicate 199 (''  '', ''word''))) = 1"
    using C8_reading_time[of "text_of ''word'' (replicate 199 (''  '', ''word''))"]
      ends[OF sep(3), of 199] wc[OF sep(3), of 199] by simp
  let ?t = "text_of ''word'' (replicate 199 (''  '', ''word''))"
  have wt: "word_count (?t @ [CHR 0x0A]) = 200"
    using C8_reading_time[of "?t @ [CHR 0x0A]"] C8_reading_time[of ?t] 
      split_trailing[of ?t "[CHR 0x0A]"] ends[OF sep(3), of 199] wc[OF sep(3), of 199] sep(2)
    by (simp add: word_count_def front_piece_def back_piece_def is_space_def code_def)
  have c4: "calculateReadingTime (?t @ [CHR 0x0A]) = 2"
    using C8_reading_time[of "?t @ [CHR 0x0A]"] wt by (simp add: is_space_def code_def)
  have w: "words_of '' two words'' = [''two'', ''words'']"
    by (simp add: is_space_def code_def)
  have c5: "js_split re_spaces '' two words'' = [[], ''two'', ''words'']"
    using C8_reading_time[of "'' two words''"] unfolding w
    by (simp add: front_piece_def back_piece_def is_space_def code_def)
  show ?thesis using c1 c2 c3 c4 c5 by blast
qed

text \<open>
  Claim C10: the reading time is at least 1 for every text. It is computed from the
  number of pieces, which are the words and the empty pieces at the two ends. Splitting
  the empty text gives one empty piece, so its reading time is 1 and not 0, though it
  has no word. A run of white space in front of a text, and one behind it, each add one
  empty piece to the pieces, and that piece is counted in the reading time: for a text
  of \<open>n\<close> words that neither begins nor ends with white space the reading time is
  computed from \<open>n\<close>, with a run in front or behind from \<open>n + 1\<close>, and with both from
  \<open>n + 2\<close>.
\<close>

theorem C10_reading_time_at_least_one:
  "1 \<le> calculateReadingTime s
   \<and> calculateReadingTime s = (word_count s + edge_pieces s + 199) div 200
   \<and> js_split re_spaces [] = [[]] \<and> word_count [] = 0 \<and> calculateReadingTime [] = 1
   \<and> (is_separator sep \<and> (t = [] \<or> \<not> is_space (hd t)) \<longrightarrow>
        js_split re_spaces (sep @ t) = [] # js_split re_spaces t
        \<and> calculateReadingTime (sep @ t) = (length (js_split re_spaces t) + 1 + 199) div 200)
   \<and> (is_separator sep \<and> (t = [] \<or> \<not> is_space (last t)) \<longrightarrow>
        js_split re_spaces (t @ sep) = js_split re_spaces t @ [[]]
        \<and> calculateReadingTime (t @ sep) = (length (js_split re_spaces t) + 1 + 199) div 200)
   \<and> (is_separator sep \<and> t \<noteq> [] \<and> \<not> is_space (hd t) \<and> \<not> is_space (last t) \<longrightarrow>
        calculateReadingTime t = (word_count t + 199) div 200
        \<and> calculateReadingTime (sep @ t) = (word_count t + 1 + 199) div 200
        \<and> calculateReadingTime (t @ sep) = (word_count t + 1 + 199) div 200
        \<and> calculateReadingTime (sep @ t @ sep) = (word_count t + 2 + 199) div 200)"
proof -
  have rt: "calculateReadingTime x = (length (js_split re_spaces x) + 199) div 200" for x
    by (simp add: calculateReadingTime_def)
  have "1 \<le> length (js_split re_spaces s)"
    using split_from_nonempty[of re_spaces "[]" s]
    by (cases "split_from re_spaces [] s") (simp_all add: js_split_spaces)
  then have "1 \<le> (length (js_split re_spaces s) + 199) div 200" by linarith
  then have one: "1 \<le> calculateReadingTime s" unfolding rt .
  have empty: "js_split re_spaces [] = [[]] \<and> word_count [] = 0 \<and> calculateReadingTime [] = 1"
    by (simp add: rt js_split_spaces_Nil word_count_def)
  have lead: "is_separator sep \<and> (t = [] \<or> \<not> is_space (hd t)) \<longrightarrow>
        js_split re_spaces (sep @ t) = [] # js_split re_spaces t
        \<and> calculateReadingTime (sep @ t) = (length (js_split re_spaces t) + 1 + 199) div 200"
    using split_leading[of sep t] by (simp add: rt)
  have trail: "is_separator sep \<and> (t = [] \<or> \<not> is_space (last t)) \<longrightarrow>
        js_split re_spaces (t @ sep) = js_split re_spaces t @ [[]]
        \<and> calculateReadingTime (t @ sep) = (length (js_split re_spaces t) + 1 + 199) div 200"
    using split_trailing[of t sep] by (simp add: rt)
  have around: "is_separator sep \<and> t \<noteq> [] \<and> \<not> is_space (hd t) \<and> \<not> is_space (last t) \<longrightarrow>
        calculateReadingTime t = (word_count t + 199) div 200
        \<and> calculateReadingTime (sep @ t) = (word_count t + 1 + 199) div 200
        \<and> calculateReadingTime (t @ sep) = (word_count t + 1 + 199) div 200
        \<and> calculateReadingTime (sep @ t @ sep) = (word_count t + 2 + 199) div 200"
  proof
    assume h: "is_separator sep \<and> t \<noteq> [] \<and> \<not> is_space (hd t) \<and> \<not> is_space (last t)"
    have n: "length (js_split re_spaces t) = word_count t"
      using h by (simp add: split_spaces_words word_count_def front_piece_def back_piece_def)
    have f: "js_split re_spaces (sep @ t) = [] # js_split re_spaces t"
      using split_leading[of sep t] h by simp
    have b: "js_split re_spaces (t @ sep) = js_split re_spaces t @ [[]]"
      using split_trailing[of t sep] h by simp
    have "js_split re_spaces (sep @ (t @ sep)) = [] # js_split re_spaces (t @ sep)"
      using split_leading[of sep "t @ sep"] h by simp
    then have fb: "length (js_split re_spaces (sep @ t @ sep)) = word_count t + 2"
      using b n by simp
    show "calculateReadingTime t = (word_count t + 199) div 200
        \<and> calculateReadingTime (sep @ t) = (word_count t + 1 + 199) div 200
        \<and> calculateReadingTime (t @ sep) = (word_count t + 1 + 199) div 200
        \<and> calculateReadingTime (sep @ t @ sep) = (word_count t + 2 + 199) div 200"
      unfolding rt fb unfolding f b using n by simp
  qed
  show ?thesis using one reading_time_words[of s] empty lead trail around by blast
qed

text \<open>A text of one space, a text of two words with white space in front of it or
  behind it, and a body of 200 words: alone, after a space, before a space, and
  between two spaces.\<close>

theorem C10_reading_time_at_least_one_witness:
  "calculateReadingTime '' '' = 1
   \<and> js_split re_spaces (''  '' @ ''a b'') = [] # js_split re_spaces ''a b''
   \<and> js_split re_spaces (''a b'' @ [CHR 0x0A]) = js_split re_spaces ''a b'' @ [[]]
   \<and> calculateReadingTime (text_of ''word'' (replicate 199 ('' '', ''word''))) = 1
   \<and> calculateReadingTime ('' '' @ text_of ''word'' (replicate 199 ('' '', ''word''))) = 2
   \<and> calculateReadingTime (text_of ''word'' (replicate 199 ('' '', ''word'')) @ '' '') = 2
   \<and> calculateReadingTime ('' '' @ text_of ''word'' (replicate 199 ('' '', ''word'')) @ '' '') = 2"
proof -
  have sep: "is_separator ''  ''" "is_separator '' ''" "is_separator [CHR 0x0A]"
    by (simp_all add: is_separator_def is_space_def code_def)
  have ab: "\<not> is_space (hd ''a b'')" "\<not> is_space (last ''a b'')"
    by (simp_all add: is_space_def code_def)
  let ?t = "text_of ''word'' (replicate 199 ('' '', ''word''))"
  have wc: "word_count ?t = 200"
    unfolding word_count_def words_of_text[OF is_token_word sample_words[OF sep(2)]] by simp
  have ends: "?t \<noteq> [] \<and> \<not> is_space (hd ?t) \<and> \<not> is_space (last ?t)"
    by (rule text_of_ends[OF is_token_word sample_words[OF sep(2)]])
  have sp: "word_count '' '' = 0" "edge_pieces '' '' = 2"
    by (simp_all add: word_count_def edge_pieces_def front_piece_def back_piece_def
        is_space_def code_def)
  have c1: "calculateReadingTime '' '' = 1"
    using C10_reading_time_at_least_one[of "'' ''"] unfolding sp by simp
  have c2: "js_split re_spaces (''  '' @ ''a b'') = [] # js_split re_spaces ''a b''"
    using C10_reading_time_at_least_one[of _ "''  ''" "''a b''"] sep ab by blast
  have c3: "js_split re_spaces (''a b'' @ [CHR 0x0A]) = js_split re_spaces ''a b'' @ [[]]"
    using C10_reading_time_at_least_one[of _ "[CHR 0x0A]" "''a b''"] sep ab by blast
  have c4: "calculateReadingTime ?t = 1 \<and> calculateReadingTime ('' '' @ ?t) = 2
      \<and> calculateReadingTime (?t @ '' '') = 2 \<and> calculateReadingTime ('' '' @ ?t @ '' '') = 2"
  proof -
    have "is_separator '' '' \<and> ?t \<noteq> [] \<and> \<not> is_space (hd ?t) \<and> \<not> is_space (last ?t) \<longrightarrow>
        calculateReadingTime ?t = (word_count ?t + 199) div 200
        \<and> calculateReadingTime ('' '' @ ?t) = (word_count ?t + 1 + 199) div 200
        \<and> calculateReadingTime (?t @ '' '') = (word_count ?t + 1 + 199) div 200
        \<and> calculateReadingTime ('' '' @ ?t @ '' '') = (word_count ?t + 2 + 199) div 200"
      using C10_reading_time_at_least_one[of "[]" "'' ''" ?t] by blast
    from this[THEN mp, OF conjI[OF sep(2) ends]] show ?thesis unfolding wc by simp
  qed
  show ?thesis using c1 c2 c3 c4 by blast
qed
section \<open>The excerpt\<close>

text \<open>
  Claim C7, as stated: the excerpt removes the leading heading markers (one to six
  \<^verbatim>\<open>#\<close> followed by a space), removes the bold markers, turns newlines into spaces,
  trims, takes 160 characters and appends an ellipsis. On the code the first pass is not
  tied to the start of a line, nor to the space: in \<^verbatim>\<open>C# rocks\<close> the \<^verbatim>\<open>#\<close> and
  the space after it are removed, and so are two \<^verbatim>\<open>#\<close> followed by a TAB.
\<close>

theorem C7_excerpt_counterexample:
  "generateExcerpt ''C# rocks'' = ''Crocks...''
   \<and> excerpt_spec ''C# rocks'' = ''C# rocks...''
   \<and> generateExcerpt (''##'' @ [CHR 0x09] @ ''Title'') = ''Title...''
   \<and> excerpt_spec (''##'' @ [CHR 0x09] @ ''Title'') = ''##'' @ [CHR 0x09] @ ''Title...''"
  by code_simp

text \<open>
  Claim C7, amended: for every markdown string the excerpt is computed by removing,
  from left to right and wherever it stands, each run of one to six \<^verbatim>\<open>#\<close> that a
  white space code unit follows, with that code unit (of a longer run, the last six);
  then removing each pair of asterisks, replacing each newline by a space, trimming,
  taking the first 160 code units and appending \<^verbatim>\<open>...\<close>. It is at most 163 long.
\<close>

theorem C7_excerpt:
  "generateExcerpt content =
     take 160 (trim (map newline_to_space (strip_bold (strip_markers content)))) @ ''...''
   \<and> (1 \<le> h \<and> h \<le> 6 \<and> is_space c \<longrightarrow>
        strip_markers (replicate h CHR ''#'' @ c # rest) = strip_markers rest)
   \<and> (7 \<le> h \<and> is_space c \<longrightarrow>
        strip_markers (replicate h CHR ''#'' @ c # rest)
          = replicate (h - 6) CHR ''#'' @ strip_markers rest)
   \<and> (d \<noteq> CHR ''#'' \<longrightarrow> strip_markers (d # rest) = d # strip_markers rest)
   \<and> length (generateExcerpt content) \<le> 163"
proof -
  have pipeline: "generateExcerpt content =
     take 160 (trim (map newline_to_space (strip_bold (strip_markers content)))) @ ''...''"
    by (simp add: generateExcerpt_def substring0_def replace_all_heading replace_all_bold
        replace_all_newline)
  have run: "hashes (replicate n CHR ''#'' @ c # rest) = n" if "is_space c" for n
  proof -
    have "c \<noteq> CHR ''#''" using that not_space_hash by auto
    then show ?thesis by (induction n) (simp_all add: hashes_def)
  qed
  have short: "strip_markers (replicate h CHR ''#'' @ c # rest) = strip_markers rest"
    if h: "1 \<le> h" "h \<le> 6" and c: "is_space c" for h
  proof -
    from h(1) obtain k where k: "h = Suc k" by (cases h) auto
    have "marker_here (replicate h CHR ''#'' @ c # rest)"
      using h c run[OF c, of h] by (simp add: marker_here_def nth_append)
    then show ?thesis using run[OF c, of h] unfolding k by simp
  qed
  have long: "strip_markers (replicate n CHR ''#'' @ replicate 6 CHR ''#'' @ c # rest)
      = replicate n CHR ''#'' @ strip_markers rest" if c: "is_space c" for n
  proof (induction n)
    case 0
    show ?case using short[of 6] c by simp
  next
    case (Suc n)
    have "hashes (replicate (Suc n + 6) CHR ''#'' @ c # rest) = Suc n + 6"
      by (rule run[OF c])
    then have "\<not> marker_here (replicate (Suc n) CHR ''#'' @ replicate 6 CHR ''#'' @ c # rest)"
      unfolding replicate_add by (simp add: marker_here_def)
    then have "strip_markers (replicate (Suc n) CHR ''#'' @ replicate 6 CHR ''#'' @ c # rest)
        = CHR ''#'' # strip_markers (replicate n CHR ''#'' @ replicate 6 CHR ''#'' @ c # rest)"
      by simp
    then show ?case using Suc by simp
  qed
  have other: "strip_markers (d # rest) = d # strip_markers rest" if "d \<noteq> CHR ''#''"
    using that by (simp add: marker_here_def hashes_def)
  have split: "replicate h CHR ''#'' = replicate (h - 6) CHR ''#'' @ replicate 6 CHR ''#''"
    if "7 \<le> h"
    using that replicate_add[of "h - 6" 6 "CHR ''#''"] by simp
  have len: "length (generateExcerpt content) \<le> 163"
    unfolding pipeline by simp
  show ?thesis using pipeline short[of h] long[of "h - 6"] other split len
    by simp
qed

text \<open>A heading line followed by a line with bold text; runs of two and of seven
  \<^verbatim>\<open>#\<close>; a code unit that is no \<^verbatim>\<open>#\<close>.\<close>

theorem C7_excerpt_witness:
  "generateExcerpt (''## Title'' @ [CHR 0x0A] @ ''Some **bold** text'') = ''Title Some bold text...''
   \<and> strip_markers (''##'' @ CHR '' '' # ''Title'') = ''Title''
   \<and> strip_markers (''#######'' @ CHR '' '' # ''x'') = ''#x''
   \<and> strip_markers (CHR ''T'' # ''itle'') = ''Title''"
proof -
  have sp: "is_space CHR '' ''" by (simp add: is_space_def code_def)
  have v: "take 160 (trim (map newline_to_space (strip_bold (strip_markers
             (''## Title'' @ [CHR 0x0A] @ ''Some **bold** text''))))) @ ''...''
           = ''Title Some bold text...''"
     "strip_markers ''Title'' = ''Title''" "strip_markers ''x'' = ''x''"
     "strip_markers ''itle'' = ''itle''"
    by code_simp+
  have r: "replicate 2 CHR ''#'' = ''##''" "replicate 7 CHR ''#'' = ''#######''"
     "replicate (7 - 6) CHR ''#'' = ''#''"
    by code_simp+
  note t1 = C7_excerpt[of "''## Title'' @ [CHR 0x0A] @ ''Some **bold** text''" 2 "CHR '' ''"
      "''Title''" "CHR ''T''"]
  note t2 = C7_excerpt[of "[]" 7 "CHR '' ''" "''x''" "CHR ''T''"]
  note t3 = C7_excerpt[of "[]" 7 "CHR '' ''" "''itle''" "CHR ''T''"]
  have p2: "1 \<le> (2::nat) \<and> (2::nat) \<le> 6 \<and> is_space CHR '' ''" using sp by simp
  have p7: "7 \<le> (7::nat) \<and> is_space CHR '' ''" using sp by simp
  have pT: "CHR ''T'' \<noteq> CHR ''#''" by simp
  have a: "generateExcerpt (''## Title'' @ [CHR 0x0A] @ ''Some **bold** text'') = ''Title Some bold text...''"
    by (rule trans[OF t1[THEN conjunct1] v(1)])
  have "strip_markers (replicate 2 CHR ''#'' @ CHR '' '' # ''Title'') = strip_markers ''Title''"
    by (rule t1[THEN conjunct2, THEN conjunct1, THEN mp, OF p2])
  then have b: "strip_markers (''##'' @ CHR '' '' # ''Title'') = ''Title''"
    unfolding r v(2) .
  have "strip_markers (replicate 7 CHR ''#'' @ CHR '' '' # ''x'')
          = replicate (7 - 6) CHR ''#'' @ strip_markers ''x''"
    by (rule t2[THEN conjunct2, THEN conjunct2, THEN conjunct1, THEN mp, OF p7])
  then have c: "strip_markers (''#######'' @ CHR '' '' # ''x'') = ''#x''"
    unfolding r v(3) by (simp del: strip_markers.simps)
  have "strip_markers (CHR ''T'' # ''itle'') = CHR ''T'' # strip_markers ''itle''"
    by (rule t3[THEN conjunct2, THEN conjunct2, THEN conjunct2, THEN conjunct1, THEN mp, OF pT])
  then have d: "strip_markers (CHR ''T'' # ''itle'') = ''Title''"
    unfolding v(4) .
  show ?thesis using a b c d by blast
qed

section \<open>The query of an alert\<close>

text \<open>
  Claim C6, as stated: for every subject \<^verbatim>\<open>Google Alert for: X\<close> the query is \<open>X\<close>
  trimmed, and for every other subject it is empty. On the code the group \<^verbatim>\<open>(.+)\<close> ends
  at a line terminator, so the query of a subject whose \<open>X\<close> holds a newline is the
  first line of \<open>X\<close> only; and the pattern is neither anchored nor case sensitive, so a
  subject that merely contains the phrase, in lower case, has a query.
\<close>

theorem C6_query_counterexample:
  "alertQuery (''Google Alert for: knee'' @ [CHR 0x0A] @ ''surgery'') = ''knee''
   \<and> trim (''knee'' @ [CHR 0x0A] @ ''surgery'') = ''knee'' @ [CHR 0x0A] @ ''surgery''
   \<and> alertQuery ''Fwd: google alert for: knee surgery'' = ''knee surgery''"
  unfolding alertQuery_after_phrase
  by (simp add: phrase_here_def canonicalize_def code_def char_of_eq_code eq_char_of_code
      trim_def dot_def is_line_terminator_def is_space_def)

text \<open>
  Claim C6, amended: the query is what follows the first place where
  \<^verbatim>\<open>Google Alert for:\<close> stands in the subject, in any letter case: the leading white
  space skipped, up to the first line terminator, trimmed. So for a subject made of the
  phrase (in any letter case) and an \<open>X\<close> without line terminator the query is \<open>X\<close>
  trimmed, and for a subject in which the phrase does not stand the query is empty. The
  query read by \<^verbatim>\<open>parseAlert\<close> is this one, and an empty query makes the message one
  that is skipped: counted as skipped, logged as not a Google Alert, with no row added.
\<close>

theorem C6_query:
  "alertQuery subj = (case after_phrase subj of None \<Rightarrow> []
      | Some rest \<Rightarrow> trim (takeWhile dot (dropWhile is_space rest)))
   \<and> (map canonicalize p = map canonicalize ''Google Alert for:'' \<and> list_all dot X \<longrightarrow>
        alertQuery (p @ X) = trim X)
   \<and> (after_phrase subj = None \<longrightarrow> alertQuery subj = [])
   \<and> (mail_subject e = Some subj \<longrightarrow> (\<exists>a. parseAlert e = Inr a \<and> query a = alertQuery subj))
   \<and> (mail_subject e = Some subj \<and> alertQuery subj = [] \<longrightarrow>
        skipped (snd (tryMessage env uid e w)) = Suc (skipped w)
        \<and> processed (snd (tryMessage env uid e w)) = processed w
        \<and> content_ideas (snd (tryMessage env uid e w)) = content_ideas w
        \<and> console (snd (tryMessage env uid e w)) = console w @ [''Skipped: not a Google Alert''])"
proof -
  have prefix: "alertQuery (p @ X) = trim X"
    if p: "map canonicalize p = map canonicalize ''Google Alert for:''" and X: "list_all dot X"
  proof -
    have "length (map canonicalize p) = length (map canonicalize ''Google Alert for:'')"
      using p by simp
    then have len: "length p = 17" by simp
    then obtain c cs where pX: "p @ X = c # cs" by (cases p) auto
    have here: "phrase_here (p @ X)" using p len by (simp add: phrase_here_def)
    have ap: "after_phrase (p @ X) = Some X"
      using here len unfolding pX[symmetric] after_phrase.simps(2)[of c cs, folded pX] by simp
    have tw: "takeWhile dot (dropWhile is_space X) = dropWhile is_space X"
      using X by (auto simp: list_all_iff dest: set_dropWhileD)
    show ?thesis unfolding alertQuery_after_phrase ap option.case tw by (simp add: trim_def)
  qed
  have parse: "\<exists>a. parseAlert e = Inr a \<and> query a = alertQuery subj"
    if "mail_subject e = Some subj"
    using that by (simp add: parseAlert_def Let_def)
  have skip: "skipped (snd (tryMessage env uid e w)) = Suc (skipped w)
        \<and> processed (snd (tryMessage env uid e w)) = processed w
        \<and> content_ideas (snd (tryMessage env uid e w)) = content_ideas w
        \<and> console (snd (tryMessage env uid e w)) = console w @ [''Skipped: not a Google Alert'']"
    if s: "mail_subject e = Some subj" and q: "alertQuery subj = []"
  proof -
    from parse[OF s] q obtain a where a: "parseAlert e = Inr a" "query a = []" by auto
    show ?thesis
      unfolding tryMessage_def a sum.case if_True
      using a(2) markAsRead_frame[of env uid
              "(say ''Skipped: not a Google Alert'' w)\<lparr>skipped := Suc (skipped w)\<rparr>"]
      by (simp add: say_def)
  qed
  show ?thesis using alertQuery_after_phrase[of subj] prefix parse skip
    by (simp split: option.splits)
qed

text \<open>A subject with the phrase in another letter case, a subject without the phrase,
  and a subject with nothing but a space after the phrase.\<close>

theorem C6_query_witness:
  "alertQuery (''GOOGLE alert for:'' @ ''  dental implants '') = ''dental implants''
   \<and> alertQuery ''Weekly digest'' = []
   \<and> alertQuery ''Google Alert for: '' = []"
proof -
  note t1 = C6_query[of "''Weekly digest''" "''GOOGLE alert for:''" "''  dental implants ''"]
  note t2 = C6_query[of "''Google Alert for: ''"]
  have p: "map canonicalize ''GOOGLE alert for:'' = map canonicalize ''Google Alert for:''
      \<and> list_all dot ''  dental implants ''"
    by (simp add: canonicalize_def code_def char_of_eq_code eq_char_of_code dot_def
        is_line_terminator_def)
  have n: "after_phrase ''Weekly digest'' = None"
    by (simp add: phrase_here_def canonicalize_def code_def char_of_eq_code eq_char_of_code)
  have v: "trim ''  dental implants '' = ''dental implants''"
    by (simp add: trim_def is_space_def code_def)
  have w: "(case after_phrase ''Google Alert for: '' of None \<Rightarrow> []
      | Some rest \<Rightarrow> trim (takeWhile dot (dropWhile is_space rest))) = []"
    by (simp add: phrase_here_def canonicalize_def code_def char_of_eq_code eq_char_of_code
        trim_def is_space_def)
  have a: "alertQuery (''GOOGLE alert for:'' @ ''  dental implants '') = ''dental implants''"
    using t1[THEN conjunct2, THEN conjunct1, THEN mp, OF p] unfolding v .
  have b: "alertQuery ''Weekly digest'' = []"
    by (rule t1[THEN conjunct2, THEN conjunct2, THEN conjunct1, THEN mp, OF n])
  have c: "alertQuery ''Google Alert for: '' = []"
    using t2[THEN conjunct1] unfolding w .
  show ?thesis using a b c by blast
qed

section \<open>A failing select\<close>

text \<open>
  Claim C9: when the select of the pending ideas returns an error, the run of the writer
  takes it for no pending idea: it logs the message of the store's error, reports that
  it found 0 pending ideas, and returns, with the error counter untouched, no exit call,
  no completion call and no write to the store.
\<close>

theorem C9_select_failure:
  "select_error env = Some m \<longrightarrow>
     fst (getPendingIdeas env w) = []
     \<and> fst (run env w) = Returned
     \<and> console (snd (run env w)) = console w @
          [''Starting blog post generation...'', ''Error fetching ideas: '' @ m,
           ''Found 0 pending ideas'', ''No pending ideas to process'']
     \<and> calls (snd (run env w)) = calls w @ [StoreSelectPending]
     \<and> errors (snd (run env w)) = errors w
     \<and> written (snd (run env w)) = written w
     \<and> ideas (snd (run env w)) = ideas w
     \<and> blog_posts (snd (run env w)) = blog_posts w"
proof
  assume m: "select_error env = Some m"
  have "fst (getPendingIdeas env w) = []"
    using m by (simp add: getPendingIdeas_def storeSelect_def Let_def)
  then show "fst (getPendingIdeas env w) = []
     \<and> fst (run env w) = Returned
     \<and> console (snd (run env w)) = console w @
          [''Starting blog post generation...'', ''Error fetching ideas: '' @ m,
           ''Found 0 pending ideas'', ''No pending ideas to process'']
     \<and> calls (snd (run env w)) = calls w @ [StoreSelectPending]
     \<and> errors (snd (run env w)) = errors w
     \<and> written (snd (run env w)) = written w
     \<and> ideas (snd (run env w)) = ideas w
     \<and> blog_posts (snd (run env w)) = blog_posts w"
    unfolding run_select_failed[OF m] by simp
qed

text \<open>The sample table, with a store whose select fails.\<close>

theorem C9_select_failure_witness:
  "fst (run (sample_write_env\<lparr>select_error := Some ''fetch failed''\<rparr>) sample_writer) = Returned
   \<and> console (snd (run (sample_write_env\<lparr>select_error := Some ''fetch failed''\<rparr>) sample_writer))
       = [''Starting blog post generation...'', ''Error fetching ideas: fetch failed'',
          ''Found 0 pending ideas'', ''No pending ideas to process'']
   \<and> errors (snd (run (sample_write_env\<lparr>select_error := Some ''fetch failed''\<rparr>) sample_writer)) = 0
   \<and> calls (snd (run (sample_write_env\<lparr>select_error := Some ''fetch failed''\<rparr>) sample_writer))
       = [StoreSelectPending]"
proof -
  have h: "select_error (sample_write_env\<lparr>select_error := Some ''fetch failed''\<rparr>) = Some ''fetch failed''"
    by simp
  have w: "console sample_writer = []" "calls sample_writer = []" "errors sample_writer = 0"
    by (simp_all add: sample_writer_def)
  show ?thesis
    using C9_select_failure[of "sample_write_env\<lparr>select_error := Some ''fetch failed''\<rparr>"
        "''fetch failed''" sample_writer, THEN mp, OF h]
    unfolding w by simp
qed

section \<open>The batch of the writer\<close>

text \<open>
  Claim C3: a run of the writer selects the ideas whose status is \<^verbatim>\<open>pending\<close>, by
  descending priority score, at most three of them: what it selects are pending rows of
  the table, three of them or all the pending ones if there are fewer, in descending
  order of score, and no pending row left out has a higher score than a selected one.
  When every step goes through for the selected ideas (in a table whose identities are
  distinct), exactly they become \<^verbatim>\<open>processed\<close>: of five pending ideas, three are
  processed and two stay pending. With no pending idea the run ends at once: the select
  is its only call, and the store is not written.
\<close>

theorem C3_selection:
  "select_error env = None \<longrightarrow>
     fst (getPendingIdeas env w) = selectPending (ideas w)
     \<and> set (selectPending (ideas w)) \<subseteq> {r \<in> set (ideas w). status r = ''pending''}
     \<and> length (selectPending (ideas w)) = min 3 (length (filter pending (ideas w)))
     \<and> sorted_wrt (\<lambda>a b. seo_priority_score b \<le> seo_priority_score a) (selectPending (ideas w))
     \<and> (\<forall>r\<in>set (ideas w). status r = ''pending'' \<and> r \<notin> set (selectPending (ideas w)) \<longrightarrow>
          (\<forall>s\<in>set (selectPending (ideas w)). seo_priority_score r \<le> seo_priority_score s))
     \<and> (distinct (map idea_id (ideas w))
          \<and> (\<forall>i\<in>set (selectPending (ideas w)). status_updated env i) \<longrightarrow>
          ideas (snd (run env w))
            = mark_processed (idea_id ` set (selectPending (ideas w))) (ideas w)
          \<and> length (filter pending (ideas (snd (run env w))))
            = length (filter pending (ideas w)) - min 3 (length (filter pending (ideas w)))
          \<and> length (blog_posts (snd (run env w)))
            = length (blog_posts w) + min 3 (length (filter pending (ideas w)))
          \<and> (length (filter pending (ideas w)) = 5 \<longrightarrow>
               length (filter pending (ideas (snd (run env w)))) = 2
               \<and> written (snd (run env w)) = 3 \<and> errors (snd (run env w)) = 0))
     \<and> (filter pending (ideas w) = [] \<longrightarrow>
          run env w = (Returned, w\<lparr>console := console w @
              [''Starting blog post generation...'', ''Found 0 pending ideas'',
               ''No pending ideas to process''],
            calls := calls w @ [StoreSelectPending]\<rparr>))"
proof
  assume sel: "select_error env = None"
  let ?sel = "selectPending (ideas w)"
  have get: "fst (getPendingIdeas env w) = ?sel"
    using sel by (simp add: getPendingIdeas_def storeSelect_def Let_def)
  have sub: "set ?sel \<subseteq> {r \<in> set (ideas w). status r = ''pending''}"
    using selectPending_set[of "ideas w"] by (simp add: pending_def)
  have top: "\<forall>r\<in>set (ideas w). status r = ''pending'' \<and> r \<notin> set ?sel \<longrightarrow>
          (\<forall>s\<in>set ?sel. seo_priority_score r \<le> seo_priority_score s)"
    using selectPending_top[of _ "ideas w"] by (auto simp: pending_def)
  have batch: "ideas (snd (run env w)) = mark_processed (idea_id ` set ?sel) (ideas w)
          \<and> length (filter pending (ideas (snd (run env w))))
            = length (filter pending (ideas w)) - min 3 (length (filter pending (ideas w)))
          \<and> length (blog_posts (snd (run env w)))
            = length (blog_posts w) + min 3 (length (filter pending (ideas w)))
          \<and> (length (filter pending (ideas w)) = 5 \<longrightarrow>
               length (filter pending (ideas (snd (run env w)))) = 2
               \<and> written (snd (run env w)) = 3 \<and> errors (snd (run env w)) = 0)"
    if d: "distinct (map idea_id (ideas w))" and ok: "\<forall>i\<in>set ?sel. status_updated env i"
  proof -
    have all: "{i \<in> set ?sel. status_updated env i} = set ?sel" using ok by auto
    have saved: "filter (draft_saved env) ?sel = ?sel"
      using ok by (simp add: status_updated_def)
    have unsaved: "filter (\<lambda>i. \<not> draft_saved env i) ?sel = []"
      using ok by (simp add: status_updated_def)
    note r = run_result[OF sel, of w, unfolded all saved unsaved]
    have ds: "distinct ?sel"
      using selectPending_distinct[OF d] by (simp add: distinct_map)
    have cnt: "length (filter pending (ideas (snd (run env w))))
        = length (filter pending (ideas w)) - min 3 (length (filter pending (ideas w)))"
      using r pending_after_mark[OF d selectPending_set ds] selectPending_length[of "ideas w"]
      by simp
    have five: "length (filter pending (ideas (snd (run env w)))) = 2
        \<and> written (snd (run env w)) = 3 \<and> errors (snd (run env w)) = 0"
      if "length (filter pending (ideas w)) = 5"
    proof -
      have "length ?sel = 3" using that selectPending_length[of "ideas w"] by simp
      then have "?sel \<noteq> []" by auto
      then show ?thesis using r cnt that \<open>length ?sel = 3\<close> by simp
    qed
    show ?thesis using r cnt five selectPending_length[of "ideas w"] by simp
  qed
  have none: "run env w = (Returned, w\<lparr>console := console w @
              [''Starting blog post generation...'', ''Found 0 pending ideas'',
               ''No pending ideas to process''],
            calls := calls w @ [StoreSelectPending]\<rparr>)"
    if "filter pending (ideas w) = []"
  proof -
    have "?sel = []" using that by (simp add: selectPending_def pending_def[abs_def])
    then show ?thesis by (rule run_nothing_pending[OF sel])
  qed
  show "fst (getPendingIdeas env w) = selectPending (ideas w)
     \<and> set (selectPending (ideas w)) \<subseteq> {r \<in> set (ideas w). status r = ''pending''}
     \<and> length (selectPending (ideas w)) = min 3 (length (filter pending (ideas w)))
     \<and> sorted_wrt (\<lambda>a b. seo_priority_score b \<le> seo_priority_score a) (selectPending (ideas w))
     \<and> (\<forall>r\<in>set (ideas w). status r = ''pending'' \<and> r \<notin> set (selectPending (ideas w)) \<longrightarrow>
          (\<forall>s\<in>set (selectPending (ideas w)). seo_priority_score r \<le> seo_priority_score s))
     \<and> (distinct (map idea_id (ideas w))
          \<and> (\<forall>i\<in>set (selectPending (ideas w)). status_updated env i) \<longrightarrow>
          ideas (snd (run env w))
            = mark_processed (idea_id ` set (selectPending (ideas w))) (ideas w)
          \<and> length (filter pending (ideas (snd (run env w))))
            = length (filter pending (ideas w)) - min 3 (length (filter pending (ideas w)))
          \<and> length (blog_posts (snd (run env w)))
            = length (blog_posts w) + min 3 (length (filter pending (ideas w)))
          \<and> (length (filter pending (ideas w)) = 5 \<longrightarrow>
               length (filter pending (ideas (snd (run env w)))) = 2
               \<and> written (snd (run env w)) = 3 \<and> errors (snd (run env w)) = 0))
     \<and> (filter pending (ideas w) = [] \<longrightarrow>
          run env w = (Returned, w\<lparr>console := console w @
              [''Starting blog post generation...'', ''Found 0 pending ideas'',
               ''No pending ideas to process''],
            calls := calls w @ [StoreSelectPending]\<rparr>))"
    using get sub selectPending_length[of "ideas w"] selectPending_sorted[of "ideas w"] top
      batch none
    by blast
qed

text \<open>The sample table: the ideas 2, 4 and 1 are selected, in this order, and
  processed; the ideas 5 and 6 stay pending. And a table without pending idea.\<close>

theorem C3_selection_witness:
  "selectPending (ideas sample_writer)
     = [sample_idea 2 ''pending'' 9, sample_idea 4 ''pending'' 7, sample_idea 1 ''pending'' 5]
   \<and> fst (getPendingIdeas sample_write_env sample_writer) = selectPending (ideas sample_writer)
   \<and> map status (ideas (snd (run sample_write_env sample_writer)))
       = [''processed'', ''processed'', ''processed'', ''processed'', ''pending'', ''pending'']
   \<and> length (filter pending (ideas (snd (run sample_write_env sample_writer)))) = 2
   \<and> written (snd (run sample_write_env sample_writer)) = 3
   \<and> calls (snd (run sample_write_env (sample_writer\<lparr>ideas := [sample_idea 3 ''processed'' 10]\<rparr>)))
       = [StoreSelectPending]"
proof -
  have selv: "selectPending (ideas sample_writer)
     = [sample_idea 2 ''pending'' 9, sample_idea 4 ''pending'' 7, sample_idea 1 ''pending'' 5]"
    by (simp add: selectPending_def sample_writer_def sample_idea_def POSTS_PER_DAY_def)
  have h: "select_error sample_write_env = None" by (simp add: sample_write_env_def)
  have ok: "status_updated sample_write_env (sample_idea i st sc)" for i st sc
    by (simp add: status_updated_def draft_saved_def sample_write_env_def sample_idea_def)
  have d: "distinct (map idea_id (ideas sample_writer))
      \<and> (\<forall>i\<in>set (selectPending (ideas sample_writer)). status_updated sample_write_env i)"
    unfolding selv using ok by (simp add: sample_writer_def sample_idea_def)
  have five: "length (filter pending (ideas sample_writer)) = 5"
    by (simp add: sample_writer_def sample_idea_def pending_def)
  note t = C3_selection[of sample_write_env sample_writer, THEN mp, OF h]
  note b = t[THEN conjunct2, THEN conjunct2, THEN conjunct2, THEN conjunct2, THEN conjunct2,
      THEN conjunct1, THEN mp, OF d]
  have m: "map status (mark_processed (idea_id ` set (selectPending (ideas sample_writer)))
        (ideas sample_writer))
      = [''processed'', ''processed'', ''processed'', ''processed'', ''pending'', ''pending'']"
    unfolding selv by (simp add: mark_processed_def sample_writer_def sample_idea_def)
  have none: "filter pending (ideas (sample_writer\<lparr>ideas := [sample_idea 3 ''processed'' 10]\<rparr>)) = []"
    by (simp add: pending_def sample_idea_def)
  note z = C3_selection[of sample_write_env "sample_writer\<lparr>ideas := [sample_idea 3 ''processed'' 10]\<rparr>",
      THEN mp, OF h, THEN conjunct2, THEN conjunct2, THEN conjunct2, THEN conjunct2,
      THEN conjunct2, THEN conjunct2, THEN mp, OF none]
  have c: "calls (snd (run sample_write_env (sample_writer\<lparr>ideas := [sample_idea 3 ''processed'' 10]\<rparr>)))
       = [StoreSelectPending]"
    unfolding z by (simp add: sample_writer_def)
  have s: "map status (ideas (snd (run sample_write_env sample_writer)))
       = [''processed'', ''processed'', ''processed'', ''processed'', ''pending'', ''pending'']"
    unfolding b[THEN conjunct1] by (rule m)
  note f = b[THEN conjunct2, THEN conjunct2, THEN conjunct2, THEN mp, OF five]
  show ?thesis
    using selv t[THEN conjunct1] s f c by blast
qed

section \<open>A failing step of the writer\<close>

text \<open>
  Claim C1, as stated: when any of the steps 1 to 4 fails for a selected idea, the run
  logs, adds exactly 1 to the error counter, leaves the idea pending and goes on. For
  step 4 the code does otherwise: \<^verbatim>\<open>markIdeaAsProcessed\<close> logs the store's error and does
  not throw, so the post counts as written and the error counter stays as it was.
\<close>

theorem C1_step_failure_counterexample:
  "errors (snd (run (sample_write_env\<lparr>idea_update_error := (\<lambda>i. Some ''update failed'')\<rparr>)
                   (sample_writer\<lparr>ideas := [sample_idea 1 ''pending'' 5]\<rparr>))) = 0
   \<and> written (snd (run (sample_write_env\<lparr>idea_update_error := (\<lambda>i. Some ''update failed'')\<rparr>)
                   (sample_writer\<lparr>ideas := [sample_idea 1 ''pending'' 5]\<rparr>))) = 1
   \<and> map status (ideas (snd (run (sample_write_env\<lparr>idea_update_error := (\<lambda>i. Some ''update failed'')\<rparr>)
                   (sample_writer\<lparr>ideas := [sample_idea 1 ''pending'' 5]\<rparr>)))) = [''pending'']"
proof -
  let ?env = "sample_write_env\<lparr>idea_update_error := (\<lambda>i. Some ''update failed'')\<rparr>"
  let ?w = "sample_writer\<lparr>ideas := [sample_idea 1 ''pending'' 5]\<rparr>"
  have sel: "select_error ?env = None" by (simp add: sample_write_env_def)
  have selv: "selectPending (ideas ?w) = [sample_idea 1 ''pending'' 5]"
    by (simp add: selectPending_def sample_idea_def POSTS_PER_DAY_def)
  have saved: "draft_saved ?env (sample_idea 1 ''pending'' 5)"
    by (simp add: draft_saved_def sample_write_env_def sample_idea_def)
  have upd: "\<not> status_updated ?env (sample_idea 1 ''pending'' 5)"
    by (simp add: status_updated_def)
  have none: "{i \<in> set [sample_idea 1 ''pending'' 5]. status_updated ?env i} = {}"
    using upd by auto
  have f1: "filter (\<lambda>i. \<not> draft_saved ?env i) [sample_idea 1 ''pending'' 5] = []"
    and f2: "filter (draft_saved ?env) [sample_idea 1 ''pending'' 5] = [sample_idea 1 ''pending'' 5]"
    using saved by simp_all
  note r = run_result[OF sel, of ?w, unfolded selv none f1 f2 image_empty mark_processed_empty]
  have st: "map status (ideas ?w) = [''pending'']" by (simp add: sample_idea_def)
  show ?thesis using r st by simp
qed

text \<open>
  Claim C1, amended: when one of the steps 1 to 3 (the post, the meta description, the
  insert of the draft) fails for a selected idea, the run logs the error as
  \<^verbatim>\<open>Error processing idea\<close>, adds exactly 1 to the error counter, leaves the table and
  so the status of the idea as they were, inserts no post and goes on to the next idea;
  when the update of the status (step 4) returns an error, the run logs it, leaves the
  error counter as it was, counts the post as written, and the idea stays pending. The
  error counter at the end is the number of selected ideas for which a step 1 to 3
  failed. In particular, in a table with distinct identities, when the completion throws
  for one of three selected ideas and every step goes through for the other two, that
  idea stays pending, the other two become processed, and the error counter is 1.
\<close>

theorem C1_step_failure:
  "(\<not> draft_saved env idea \<longrightarrow>
      errors (processIdea env idea w) = Suc (errors w)
      \<and> written (processIdea env idea w) = written w
      \<and> ideas (processIdea env idea w) = ideas w
      \<and> blog_posts (processIdea env idea w) = blog_posts w
      \<and> (\<exists>e. last (console (processIdea env idea w))
            = ''Error processing idea '' @ show_nat (idea_id idea) @ '': '' @ message e))
   \<and> (draft_saved env idea \<and> idea_update_error env (idea_id idea) = Some m \<longrightarrow>
      errors (processIdea env idea w) = errors w
      \<and> written (processIdea env idea w) = Suc (written w)
      \<and> ideas (processIdea env idea w) = ideas w
      \<and> ''Error updating idea status: '' @ m \<in> set (console (processIdea env idea w)))
   \<and> processIdeas env (idea # rest) w = processIdeas env rest (processIdea env idea w)
   \<and> (select_error env = None \<and> selectPending (ideas w) \<noteq> [] \<longrightarrow>
      errors (snd (run env w))
        = length (filter (\<lambda>i. \<not> draft_saved env i) (selectPending (ideas w))))
   \<and> (select_error env = None \<and> distinct (map idea_id (ideas w))
       \<and> length (selectPending (ideas w)) = 3
       \<and> bad \<in> set (selectPending (ideas w))
       \<and> (\<exists>e. post_completion env (idea_id bad) = Inl e)
       \<and> (\<forall>i\<in>set (selectPending (ideas w)). i \<noteq> bad \<longrightarrow> status_updated env i) \<longrightarrow>
      errors (snd (run env w)) = 1
      \<and> written (snd (run env w)) = 2
      \<and> ideas (snd (run env w))
          = mark_processed (idea_id ` (set (selectPending (ideas w)) - {bad})) (ideas w)
      \<and> (\<forall>r\<in>set (ideas (snd (run env w))).
           (idea_id r = idea_id bad \<longrightarrow> r = bad \<and> status r = ''pending'')
           \<and> (idea_id r \<in> idea_id ` (set (selectPending (ideas w)) - {bad})
                \<longrightarrow> status r = ''processed'')))"
proof -
  have scenario: "errors (snd (run env w)) = 1
      \<and> written (snd (run env w)) = 2
      \<and> ideas (snd (run env w))
          = mark_processed (idea_id ` (set (selectPending (ideas w)) - {bad})) (ideas w)
      \<and> (\<forall>r\<in>set (ideas (snd (run env w))).
           (idea_id r = idea_id bad \<longrightarrow> r = bad \<and> status r = ''pending'')
           \<and> (idea_id r \<in> idea_id ` (set (selectPending (ideas w)) - {bad})
                \<longrightarrow> status r = ''processed''))"
    if sel: "select_error env = None" and d: "distinct (map idea_id (ideas w))"
      and three: "length (selectPending (ideas w)) = 3"
      and bad: "bad \<in> set (selectPending (ideas w))"
      and thrown: "\<exists>e. post_completion env (idea_id bad) = Inl e"
      and ok: "\<forall>i\<in>set (selectPending (ideas w)). i \<noteq> bad \<longrightarrow> status_updated env i"
  proof -
    have nb: "\<not> draft_saved env bad" using thrown by (auto simp: draft_saved_def)
    show ?thesis
      using one_failure_of_batch[OF sel d bad nb ok] three by simp
  qed
  have count: "errors (snd (run env w))
        = length (filter (\<lambda>i. \<not> draft_saved env i) (selectPending (ideas w)))"
    if "select_error env = None" "selectPending (ideas w) \<noteq> []"
    using run_result[OF that(1), of w] that(2) by simp
  have upd: "errors (processIdea env idea w) = errors w
      \<and> written (processIdea env idea w) = Suc (written w)
      \<and> ideas (processIdea env idea w) = ideas w
      \<and> ''Error updating idea status: '' @ m \<in> set (console (processIdea env idea w))"
    if "draft_saved env idea" "idea_update_error env (idea_id idea) = Some m"
    using processIdea_saved[OF that(1), of w] processIdea_update_failed_log[OF that, of w] that(2)
    by simp
  show ?thesis
    using processIdea_failed[of env idea w] processIdea_failed_log[of env idea w] upd count scenario
    by (simp only: processIdeas.simps) blast
qed

text \<open>A table of three pending ideas, with a completion that throws for idea 4.\<close>

theorem C1_step_failure_witness:
  "errors (snd (run (sample_write_env\<lparr>post_completion :=
            (\<lambda>i. if i = 4 then Inl (Thrown ''rate limit'') else Inr (Some ''## Intro''))\<rparr>)
          sample_writer3)) = 1
   \<and> written (snd (run (sample_write_env\<lparr>post_completion :=
            (\<lambda>i. if i = 4 then Inl (Thrown ''rate limit'') else Inr (Some ''## Intro''))\<rparr>)
          sample_writer3)) = 2
   \<and> map status (ideas (snd (run (sample_write_env\<lparr>post_completion :=
            (\<lambda>i. if i = 4 then Inl (Thrown ''rate limit'') else Inr (Some ''## Intro''))\<rparr>)
          sample_writer3))) = [''processed'', ''processed'', ''pending'']
   \<and> errors (processIdea (sample_write_env\<lparr>post_completion :=
            (\<lambda>i. if i = 4 then Inl (Thrown ''rate limit'') else Inr (Some ''## Intro''))\<rparr>)
          (sample_idea 4 ''pending'' 7) sample_writer3) = 1"
proof -
  let ?env = "sample_write_env\<lparr>post_completion :=
            (\<lambda>i. if i = 4 then Inl (Thrown ''rate limit'') else Inr (Some ''## Intro''))\<rparr>"
  let ?bad = "sample_idea 4 ''pending'' 7"
  have selv: "selectPending (ideas sample_writer3)
      = [sample_idea 2 ''pending'' 9, ?bad, sample_idea 1 ''pending'' 5]"
    by (simp add: selectPending_def sample_writer3_def sample_idea_def POSTS_PER_DAY_def)
  have ok: "status_updated ?env (sample_idea 2 ''pending'' 9)"
    "status_updated ?env (sample_idea 1 ''pending'' 5)"
    by (simp_all add: status_updated_def draft_saved_def sample_write_env_def sample_idea_def)
  have ne: "sample_idea 2 ''pending'' 9 \<noteq> ?bad" "sample_idea 1 ''pending'' 5 \<noteq> ?bad"
    by (simp_all add: sample_idea_def)
  have h: "select_error ?env = None \<and> distinct (map idea_id (ideas sample_writer3))
       \<and> length (selectPending (ideas sample_writer3)) = 3
       \<and> ?bad \<in> set (selectPending (ideas sample_writer3))
       \<and> (\<exists>e. post_completion ?env (idea_id ?bad) = Inl e)
       \<and> (\<forall>i\<in>set (selectPending (ideas sample_writer3)). i \<noteq> ?bad \<longrightarrow> status_updated ?env i)"
    unfolding selv using ok
    by (simp add: sample_write_env_def sample_writer3_def sample_idea_def)
  note t = C1_step_failure[of ?env ?bad sample_writer3 _ _ ?bad]
  note s = t[THEN conjunct2, THEN conjunct2, THEN conjunct2, THEN conjunct2, THEN mp, OF h]
  have m: "map status (mark_processed
        (idea_id ` (set (selectPending (ideas sample_writer3)) - {?bad})) (ideas sample_writer3))
      = [''processed'', ''processed'', ''pending'']"
  proof -
    have diff: "set (selectPending (ideas sample_writer3)) - {?bad}
        = {sample_idea 2 ''pending'' 9, sample_idea 1 ''pending'' 5}"
      unfolding selv using ne by auto
    have ids: "idea_id ` (set (selectPending (ideas sample_writer3)) - {?bad}) = {2, 1}"
      unfolding diff by (simp add: sample_idea_def)
    show ?thesis unfolding ids
      by (simp add: mark_processed_def sample_writer3_def sample_idea_def)
  qed
  have st: "map status (ideas (snd (run ?env sample_writer3)))
      = [''processed'', ''processed'', ''pending'']"
    unfolding s[THEN conjunct2, THEN conjunct2, THEN conjunct1] by (rule m)
  have nb: "\<not> draft_saved ?env ?bad"
    by (simp add: draft_saved_def sample_idea_def)
  have e0: "errors sample_writer3 = 0" by (simp add: sample_writer3_def)
  have one: "errors (processIdea ?env ?bad sample_writer3) = 1"
    using t[THEN conjunct1, THEN mp, OF nb, THEN conjunct1] unfolding e0 by simp
  show ?thesis
    using s[THEN conjunct1] s[THEN conjunct2, THEN conjunct1] st one by blast
qed

section \<open>Marking a message read\<close>

text \<open>
  Claim C2: whenever the loop of the ingestor goes on to the next message, the message
  it leaves is flagged \<^verbatim>\<open>\Seen\<close> and has added at most one row to the ideas, whether the
  idea was generated and inserted, an error was caught, or the message was skipped as
  no alert: when the message can be fetched and the flag calls do not throw, the turn
  ends so whatever the completion and the store do. Hence a run that returns has
  flagged every message it found, has added at most one row for each, and no later run
  finds any of them again: a flag is never cleared, and the search leaves flagged
  messages out. (The loop does not go on when the fetch of a message or the marking
  itself throws: the run then ends with exit status 1.)
\<close>

theorem C2_marked_read:
  "(processMessage env uid w = (None, w') \<longrightarrow>
      uid \<in> seen w' \<and> length (content_ideas w') \<le> Suc (length (content_ideas w)))
   \<and> (fetch env uid = Inr e \<and> (\<forall>n. flag_error env n = None) \<longrightarrow>
      fst (processMessage env uid w) = None \<and> uid \<in> seen (snd (processMessage env uid w)))
   \<and> (mail_works env \<longrightarrow> fst (runAutomation env w) = Returned)
   \<and> (fst (runAutomation env w) = Returned \<longrightarrow>
      (\<forall>u\<in>set (search env w).
          u \<in> seen (snd (runAutomation env w))
          \<and> u \<notin> set (search env' (later_runs envs (snd (runAutomation env w)))))
      \<and> length (content_ideas (snd (runAutomation env w)))
          \<le> length (content_ideas w) + length (search env w))
   \<and> (u \<in> seen w \<longrightarrow>
      u \<in> seen (later_runs envs w) \<and> u \<notin> set (search env' (later_runs envs w)))"
proof -
  have one: "uid \<in> seen w' \<and> length (content_ideas w') \<le> Suc (length (content_ideas w))"
    if "processMessage env uid w = (None, w')"
    using processMessage_cases[OF that] by simp
  have any: "fst (processMessage env uid w) = None \<and> uid \<in> seen (snd (processMessage env uid w))"
    if "fetch env uid = Inr e" "\<forall>n. flag_error env n = None"
  proof -
    have n: "fst (processMessage env uid w) = None" by (rule processMessage_flags_ok[OF that])
    then have "processMessage env uid w = (None, snd (processMessage env uid w))"
      by (cases "processMessage env uid w") simp
    from processMessage_cases[OF this] n show ?thesis by simp
  qed
  have later: "v \<in> seen (later_runs envs x) \<and> v \<notin> set (search env' (later_runs envs x))"
    if "v \<in> seen x" for v x
    using that later_runs_seen[of x envs] search_unseen[of v "later_runs envs x" env'] by auto
  have run: "(\<forall>u\<in>set (search env w).
          u \<in> seen (snd (runAutomation env w))
          \<and> u \<notin> set (search env' (later_runs envs (snd (runAutomation env w)))))
      \<and> length (content_ideas (snd (runAutomation env w)))
          \<le> length (content_ideas w) + length (search env w)"
    if "fst (runAutomation env w) = Returned"
    using runAutomation_cases[of w env] that later by auto
  show ?thesis using one any run later runAutomation_returns[of env w] by blast
qed

text \<open>The sample mailbox: an alert that is saved, a message that is skipped, and an
  alert whose completion throws. All three are marked read, and a later search finds
  nothing.\<close>

theorem C2_marked_read_witness:
  "fst (runAutomation sample_ingest_env sample_ingestor) = Returned
   \<and> {1, 2, 3} \<subseteq> seen (snd (runAutomation sample_ingest_env sample_ingestor))
   \<and> search sample_ingest_env (snd (runAutomation sample_ingest_env sample_ingestor)) = []
   \<and> length (content_ideas (snd (runAutomation sample_ingest_env sample_ingestor))) \<le> 3"
proof -
  let ?w' = "snd (runAutomation sample_ingest_env sample_ingestor)"
  have works: "mail_works sample_ingest_env"
    by (simp add: mail_works_def sample_ingest_env_def)
  note t = C2_marked_read[of sample_ingest_env _ sample_ingestor _ _ sample_ingest_env "[]"]
  have ret: "fst (runAutomation sample_ingest_env sample_ingestor) = Returned"
    by (rule t[THEN conjunct2, THEN conjunct2, THEN conjunct1, THEN mp, OF works])
  note r = t[THEN conjunct2, THEN conjunct2, THEN conjunct2, THEN conjunct1, THEN mp, OF ret]
  have s: "search sample_ingest_env sample_ingestor = [1, 2, 3]"
    by (simp add: search_def sample_ingest_env_def sample_ingestor_def)
  have c0: "content_ideas sample_ingestor = []" by (simp add: sample_ingestor_def)
  have all: "\<forall>u\<in>set [1, 2, 3]. u \<in> seen ?w'"
    using r[THEN conjunct1] unfolding s by blast
  then have sub: "{1, 2, 3} \<subseteq> seen ?w'" by simp
  have inb: "inbox sample_ingest_env = [1, 2, 3]" by (simp add: sample_ingest_env_def)
  have empty: "search sample_ingest_env ?w' = []"
    unfolding search_def inb using all by simp
  have len: "length (content_ideas ?w') \<le> 3"
    using r[THEN conjunct2] unfolding s c0 by simp
  show ?thesis using ret sub empty len by blast
qed

section \<open>The row of an idea\<close>

text \<open>
  Claim C4, as stated: the row that the ingestor inserts has its title and its slug
  derived from the title that the language model suggested. On the code only the slug
  is: the title of the row is \<^verbatim>\<open>Content Idea:\<close> followed by the title of the alert.
  Two messages of one content, for which the model suggests two different titles, are
  both processed, and give rows with one title and two slugs.
\<close>

theorem C4_idea_row_counterexample:
  "\<exists>row1 row2.
     content_ideas (snd (processMessage html_ingest_env 1 sample_ingestor)) = [row1]
     \<and> processed (snd (processMessage html_ingest_env 1 sample_ingestor)) = 1
     \<and> get_field row1 ''suggested_title'' = JStr ''Top 5 Implant Clinics!''
     \<and> get_field row1 ''title'' = JStr ''Content Idea: Day Spa''
     \<and> get_field row1 ''slug'' = JStr ''top-5-implant-clinics''
     \<and> content_ideas (snd (processMessage html_ingest_env 2 sample_ingestor)) = [row2]
     \<and> processed (snd (processMessage html_ingest_env 2 sample_ingestor)) = 1
     \<and> get_field row2 ''suggested_title'' = JStr ''Another Title''
     \<and> get_field row2 ''title'' = JStr ''Content Idea: Day Spa''
     \<and> get_field row2 ''slug'' = JStr ''another-title''"
proof -
  let ?a = "\<lparr>query = ''spa'', url = [], title = ''Day Spa'', snippet = [], date = None\<rparr>"
  have s1: "generateSlug_automation ''Top 5 Implant Clinics!'' = ''top-5-implant-clinics''"
    and s2: "generateSlug_automation ''Another Title'' = ''another-title''"
    by code_simp+
  obtain row1 where r1: "contentIdeaRow ?a sample_idea_json = Inr row1"
    by (simp add: contentIdeaRow_def slugOf_def sample_idea_json_def get_field_def)
  obtain row2 where r2: "contentIdeaRow ?a other_idea_json = Inr row2"
    by (simp add: contentIdeaRow_def slugOf_def other_idea_json_def get_field_def)
  have p1: "processed (snd (processMessage html_ingest_env 1 sample_ingestor)) = 1
      \<and> content_ideas (snd (processMessage html_ingest_env 1 sample_ingestor)) = [row1]"
    using processMessage_saved[of html_ingest_env 1 html_alert_mail ?a sample_idea_json row1
        sample_ingestor] parseAlert_html_mail r1
    by (simp add: html_ingest_env_def sample_ingest_env_def sample_ingestor_def)
  have p2: "processed (snd (processMessage html_ingest_env 2 sample_ingestor)) = 1
      \<and> content_ideas (snd (processMessage html_ingest_env 2 sample_ingestor)) = [row2]"
    using processMessage_saved[of html_ingest_env 2 html_alert_mail ?a other_idea_json row2
        sample_ingestor] parseAlert_html_mail r2
    by (simp add: html_ingest_env_def sample_ingest_env_def sample_ingestor_def)
  from contentIdeaRow_InrD[OF r1] have f1:
    "get_field row1 ''suggested_title'' = JStr ''Top 5 Implant Clinics!''"
    "get_field row1 ''title'' = JStr ''Content Idea: Day Spa''"
    "get_field row1 ''slug'' = JStr ''top-5-implant-clinics''"
    unfolding s1[symmetric]
    by (auto simp: sample_idea_json_def get_field_def)
  from contentIdeaRow_InrD[OF r2] have f2:
    "get_field row2 ''suggested_title'' = JStr ''Another Title''"
    "get_field row2 ''title'' = JStr ''Content Idea: Day Spa''"
    "get_field row2 ''slug'' = JStr ''another-title''"
    unfolding s2[symmetric]
    by (auto simp: other_idea_json_def get_field_def)
  show ?thesis using p1 p2 f1 f2 by blast
qed

text \<open>
  Claim C4, amended: for every alert that is processed (the counter of processed alerts
  goes up by one), exactly one row is added to the ideas. Its slug is derived from the
  title the language model suggested: that title in lower case, with every code unit
  that is no word character, white space or hyphen removed, every run of white space
  turned into one hyphen, cut to 100 code units. Its title is \<^verbatim>\<open>Content Idea:\<close>
  followed by the \<^verbatim>\<open>title\<close> of the alert that \<^verbatim>\<open>parseAlert\<close> returns for the message,
  which the row also keeps in \<^verbatim>\<open>source_title\<close>; the suggested title is kept in
  \<^verbatim>\<open>suggested_title\<close>, the source of the row is \<^verbatim>\<open>google_alerts\<close> and its status is
  \<^verbatim>\<open>pending\<close>.
\<close>

theorem C4_idea_row:
  "processMessage env uid w = (r, w') \<and> processed w' = Suc (processed w) \<longrightarrow>
     (\<exists>e a ob t row. fetch env uid = Inr e \<and> parseAlert e = Inr a
        \<and> idea_completion env uid = Inr (JObj ob)
        \<and> get_field ob ''suggested_title'' = JStr t
        \<and> content_ideas w' = content_ideas w @ [row]
        \<and> get_field row ''slug''
            = JStr (take 100 (hyphenate (filter slug_char (map lower_char t))))
        \<and> get_field row ''title'' = JStr (''Content Idea: '' @ title a)
        \<and> get_field row ''source_title'' = JStr (title a)
        \<and> get_field row ''suggested_title'' = JStr t
        \<and> get_field row ''source'' = JStr ''google_alerts''
        \<and> get_field row ''status'' = JStr ''pending'')"
proof
  assume a: "processMessage env uid w = (r, w') \<and> processed w' = Suc (processed w)"
  from processMessage_processed[of env uid w r w'] a
  obtain e al idea row where p: "fetch env uid = Inr e" "parseAlert e = Inr al"
    "idea_completion env uid = Inr idea" "contentIdeaRow al idea = Inr row"
    "content_ideas w' = content_ideas w @ [row]" by blast
  from contentIdeaRow_InrD[OF p(4)] obtain ob t where f: "idea = JObj ob"
    "get_field ob ''suggested_title'' = JStr t"
    "get_field row ''title'' = JStr (''Content Idea: '' @ title al)"
    "get_field row ''slug'' = JStr (generateSlug_automation t)"
    "get_field row ''source'' = JStr ''google_alerts''"
    "get_field row ''status'' = JStr ''pending''"
    "get_field row ''suggested_title'' = JStr t"
    "get_field row ''source_title'' = JStr (title al)" by blast
  show "\<exists>e a ob t row. fetch env uid = Inr e \<and> parseAlert e = Inr a
        \<and> idea_completion env uid = Inr (JObj ob)
        \<and> get_field ob ''suggested_title'' = JStr t
        \<and> content_ideas w' = content_ideas w @ [row]
        \<and> get_field row ''slug''
            = JStr (take 100 (hyphenate (filter slug_char (map lower_char t))))
        \<and> get_field row ''title'' = JStr (''Content Idea: '' @ title a)
        \<and> get_field row ''source_title'' = JStr (title a)
        \<and> get_field row ''suggested_title'' = JStr t
        \<and> get_field row ''source'' = JStr ''google_alerts''
        \<and> get_field row ''status'' = JStr ''pending''"
    using p f unfolding generateSlug_automation_plain by blast
qed

text \<open>The first of the two short alerts, with the sample idea.\<close>

theorem C4_idea_row_witness:
  "\<exists>row. content_ideas (snd (processMessage html_ingest_env 1 sample_ingestor)) = [row]
     \<and> get_field row ''slug'' = JStr ''top-5-implant-clinics''
     \<and> get_field row ''title'' = JStr ''Content Idea: Day Spa''
     \<and> get_field row ''source_title'' = JStr ''Day Spa''
     \<and> get_field row ''suggested_title'' = JStr ''Top 5 Implant Clinics!''
     \<and> get_field row ''source'' = JStr ''google_alerts''
     \<and> get_field row ''status'' = JStr ''pending''"
proof -
  let ?p = "processMessage html_ingest_env 1 sample_ingestor"
  let ?a = "\<lparr>query = ''spa'', url = [], title = ''Day Spa'', snippet = [], date = None\<rparr>"
  obtain row0 where r0: "contentIdeaRow ?a sample_idea_json = Inr row0"
    by (simp add: contentIdeaRow_def slugOf_def sample_idea_json_def get_field_def)
  have one: "processed (snd ?p) = Suc (processed sample_ingestor)"
    using processMessage_saved[of html_ingest_env 1 html_alert_mail ?a sample_idea_json row0
        sample_ingestor] parseAlert_html_mail r0
    by (simp add: html_ingest_env_def sample_ingest_env_def sample_ingestor_def)
  have h: "?p = (fst ?p, snd ?p) \<and> processed (snd ?p) = Suc (processed sample_ingestor)"
    using one by simp
  from C4_idea_row[of html_ingest_env 1 sample_ingestor "fst ?p" "snd ?p", THEN mp, OF h]
  obtain e a ob t row where r: "fetch html_ingest_env 1 = Inr e" "parseAlert e = Inr a"
    "idea_completion html_ingest_env 1 = Inr (JObj ob)"
    "get_field ob ''suggested_title'' = JStr t"
    "content_ideas (snd ?p) = content_ideas sample_ingestor @ [row]"
    "get_field row ''slug'' = JStr (take 100 (hyphenate (filter slug_char (map lower_char t))))"
    "get_field row ''title'' = JStr (''Content Idea: '' @ title a)"
    "get_field row ''source_title'' = JStr (title a)"
    "get_field row ''suggested_title'' = JStr t"
    "get_field row ''source'' = JStr ''google_alerts''"
    "get_field row ''status'' = JStr ''pending''"
    by blast
  have e: "e = html_alert_mail" using r(1) by (simp add: html_ingest_env_def)
  have ta: "title a = ''Day Spa''" using r(2) unfolding e parseAlert_html_mail by auto
  have "ob = [(''suggested_title'', JStr ''Top 5 Implant Clinics!''),
           (''topic'', JStr ''Dental Care''), (''urgency'', JStr ''low''),
           (''seo_priority_score'', JNum 8)]"
    using r(3) by (simp add: html_ingest_env_def sample_ingest_env_def sample_idea_json_def)
  then have t: "t = ''Top 5 Implant Clinics!''" using r(4) by (simp add: get_field_def)
  have sl: "take 100 (hyphenate (filter slug_char (map lower_char ''Top 5 Implant Clinics!'')))
      = ''top-5-implant-clinics''"
    by code_simp
  have c: "content_ideas (snd ?p) = [row]" using r(5) by (simp add: sample_ingestor_def)
  show ?thesis
    using c r(6-11) unfolding t sl ta by auto
qed
end
